theory Spec2Isabelle
  imports Main "HOL-Library.Word"
begin

unbundle bit_operations_syntax

section \<open>The UUID codec of sqlite3-uuid.c\<close>

text \<open>
  The three C routines \<^verbatim>\<open>sqlite3_uuid_blob_to_str\<close>, \<^verbatim>\<open>sqlite3_uuid_str_to_blob\<close> and
  \<^verbatim>\<open>sqlite3_uuid_input_to_blob\<close>, and the SQL functions built on them, embedded as HOL
  functions.

  \<^item> A text character (\<^verbatim>\<open>unsigned char\<close> of a string) is a \<^typ>\<open>char\<close>, a blob byte an
    8-bit word, a C \<^verbatim>\<open>int\<close> an \<^typ>\<open>int\<close> (every \<^verbatim>\<open>int\<close> of the file stays between 0
    and 0x550, so no overflow is involved).
  \<^item> A \<^verbatim>\<open>const unsigned char*\<close> that only moves forward is the list of the cells from the
    pointer to the end of its buffer: \<^verbatim>\<open>zStr++\<close> is \<open>drop 1\<close>, and \<^verbatim>\<open>zStr[k]\<close> is \<open>rd zStr k\<close>,
    which is a fault when the cell lies outside the buffer.
  \<^item> Behaviour that C leaves undefined, and a failing \<^verbatim>\<open>assert\<close>, are values of type
    \<open>fault\<close>; a routine returns \<open>fault + result\<close>.
\<close>

subsection \<open>Memory\<close>

type_synonym byte = "8 word"

datatype fault = ReadOutOfBounds | WriteOutOfBounds | AssertionFailed

definition rd :: "'a list \<Rightarrow> nat \<Rightarrow> fault + 'a" where
  "rd buf k = (if k < length buf then Inr (buf ! k) else Inl ReadOutOfBounds)"

definition NUL :: char where
  "NUL = CHR 0x00"

subsection \<open>Hexadecimal digits\<close>

text \<open>
  \<^verbatim>\<open>isxdigit\<close> of \<^verbatim>\<open><ctype.h>\<close>: the C standard fixes it to the 22 characters
  \<^verbatim>\<open>0..9 a..f A..F\<close> in every locale. Its argument is the \<^verbatim>\<open>int\<close> value of the character.
\<close>

definition isxdigit :: "int \<Rightarrow> bool" where
  "isxdigit c \<longleftrightarrow>
     (of_char CHR ''0'' \<le> c \<and> c \<le> of_char CHR ''9'') \<or>
     (of_char CHR ''a'' \<le> c \<and> c \<le> of_char CHR ''f'') \<or>
     (of_char CHR ''A'' \<le> c \<and> c \<le> of_char CHR ''F'')"

text \<open>
  \<^verbatim>\<open>sqlite3UuidHexToInt\<close>, in the \<^verbatim>\<open>SQLITE_ASCII\<close> configuration (the default of the file):
  \<^verbatim>\<open>assert(hex digit); h += 9 * (1 & (h >> 6)); return (unsigned char)(h & 0xf);\<close>
\<close>

definition sqlite3UuidHexToInt :: "int \<Rightarrow> fault + byte" where
  "sqlite3UuidHexToInt h =
     (if \<not> ((of_char CHR ''0'' \<le> h \<and> h \<le> of_char CHR ''9'') \<or>
              (of_char CHR ''a'' \<le> h \<and> h \<le> of_char CHR ''f'') \<or>
              (of_char CHR ''A'' \<le> h \<and> h \<le> of_char CHR ''F''))
      then Inl AssertionFailed
      else let h = h + 9 * (1 AND drop_bit 6 h) in Inr (word_of_int (h AND 0xf)))"

subsection \<open>Formatter: \<^verbatim>\<open>sqlite3_uuid_blob_to_str\<close>\<close>

definition zDigits :: string where
  "zDigits = ''0123456789abcdef''"

text \<open>
  The loop \<^verbatim>\<open>for (i = 0, k = 0x550; i < 16; i++, k = k >> 1)\<close>. The output pointer only
  moves forward and every cell is written once, so the cells written so far are the list
  \<open>out\<close>; the callers supply 37 cells.
\<close>

function blob_to_str_loop :: "nat \<Rightarrow> int \<Rightarrow> byte list \<Rightarrow> string \<Rightarrow> fault + string" where
  "blob_to_str_loop i k aBlob out =
     (if i < 16 then
        (let out = (if k AND 1 \<noteq> 0 then out @ [CHR ''-''] else out) in
         case rd aBlob i of
           Inl e \<Rightarrow> Inl e
         | Inr x \<Rightarrow>
             blob_to_str_loop (i + 1) (drop_bit 1 k) aBlob
               (out @ [zDigits ! unat (drop_bit 4 x), zDigits ! unat (x AND 0xf)]))
      else Inr out)"
  by pat_completeness auto
termination
  by (relation "measure (\<lambda>(i, k, aBlob, out). 16 - i)") auto

definition sqlite3_uuid_blob_to_str :: "byte list \<Rightarrow> fault + string" where
  "sqlite3_uuid_blob_to_str aBlob =
     (case blob_to_str_loop 0 0x550 aBlob [] of
        Inl e \<Rightarrow> Inl e
      | Inr out \<Rightarrow> Inr (out @ [NUL]))"

subsection \<open>Parser: \<^verbatim>\<open>sqlite3_uuid_str_to_blob\<close>\<close>

text \<open>
  How the \<^verbatim>\<open>for\<close> loop is left: by \<^verbatim>\<open>return 1\<close>, or by \<open>i\<close> reaching 16 with the pointer
  at \<open>zStr\<close>. Both carry the caller's buffer \<open>aBlob\<close> as the loop has left it.
\<close>

datatype loop_exit = Return int "byte list" | Fallthrough string "byte list"

function str_to_blob_loop :: "nat \<Rightarrow> string \<Rightarrow> byte list \<Rightarrow> fault + loop_exit" where
  "str_to_blob_loop i zStr aBlob =
     (if i < 16 then
        (case rd zStr 0 of
           Inl e \<Rightarrow> Inl e
         | Inr c \<Rightarrow>
             (let zStr = (if c = CHR ''-'' then drop 1 zStr else zStr) in
              case rd zStr 0 of
                Inl e \<Rightarrow> Inl e
              | Inr c0 \<Rightarrow>
                  if \<not> isxdigit (of_char c0) then Inr (Return 1 aBlob)
                  else
                    (case rd zStr 1 of
                       Inl e \<Rightarrow> Inl e
                     | Inr c1 \<Rightarrow>
                         if \<not> isxdigit (of_char c1) then Inr (Return 1 aBlob)
                         else
                           (case sqlite3UuidHexToInt (of_char c0) of
                              Inl e \<Rightarrow> Inl e
                            | Inr hi \<Rightarrow>
                                (case sqlite3UuidHexToInt (of_char c1) of
                                   Inl e \<Rightarrow> Inl e
                                 | Inr lo \<Rightarrow>
                                     if i < length aBlob
                                     then str_to_blob_loop (i + 1) (drop 2 zStr)
                                            (aBlob[i := push_bit 4 hi + lo])
                                     else Inl WriteOutOfBounds)))))
      else Inr (Fallthrough zStr aBlob))"
  by pat_completeness auto
termination
  by (relation "measure (\<lambda>(i, zStr, aBlob). 16 - i)") auto

text \<open>
  The routine returns its \<^verbatim>\<open>int\<close> (0 on success) together with the contents of \<open>aBlob\<close>.
\<close>

definition sqlite3_uuid_str_to_blob :: "string \<Rightarrow> byte list \<Rightarrow> fault + (int \<times> byte list)" where
  "sqlite3_uuid_str_to_blob zStr aBlob =
     (case rd zStr 0 of
        Inl e \<Rightarrow> Inl e
      | Inr c \<Rightarrow>
          (let zStr = (if c = CHR ''{'' then drop 1 zStr else zStr) in
           case str_to_blob_loop 0 zStr aBlob of
             Inl e \<Rightarrow> Inl e
           | Inr (Return r aBlob) \<Rightarrow> Inr (r, aBlob)
           | Inr (Fallthrough zStr aBlob) \<Rightarrow>
               (case rd zStr 0 of
                  Inl e \<Rightarrow> Inl e
                | Inr c \<Rightarrow>
                    (let zStr = (if c = CHR ''}'' then drop 1 zStr else zStr) in
                     case rd zStr 0 of
                       Inl e \<Rightarrow> Inl e
                     | Inr c \<Rightarrow> Inr (if c \<noteq> NUL then 1 else 0, aBlob)))))"

subsection \<open>Input normalizer: \<^verbatim>\<open>sqlite3_uuid_input_to_blob\<close>\<close>

text \<open>
  The host's \<^verbatim>\<open>sqlite3_value\<close> with its five fundamental types; an INTEGER or FLOAT carries
  its 64 bits. \<^verbatim>\<open>sqlite3_value_text\<close> hands out the bytes of the text followed by a zero
  terminator (the null pointer it returns when the host runs out of memory is not modelled);
  \<^verbatim>\<open>sqlite3_value_bytes\<close> is the length of a blob and \<^verbatim>\<open>sqlite3_value_blob\<close> its bytes.
\<close>

datatype sqlite3_value =
    SqlInteger "64 word"
  | SqlFloat "64 word"
  | SqlText string
  | SqlBlob "byte list"
  | SqlNull

definition sqlite3_value_text :: "string \<Rightarrow> string" where
  "sqlite3_value_text t = t @ [NUL]"

text \<open>The result is the pointer returned: \<open>None\<close> is the null pointer, \<open>Some\<close> the 16 bytes
  it points to.\<close>

fun sqlite3_uuid_input_to_blob :: "sqlite3_value \<Rightarrow> byte list \<Rightarrow> fault + byte list option" where
  "sqlite3_uuid_input_to_blob (SqlText t) pBuf =
     (case sqlite3_uuid_str_to_blob (sqlite3_value_text t) pBuf of
        Inl e \<Rightarrow> Inl e
      | Inr (r, pBuf) \<Rightarrow> if r \<noteq> 0 then Inr None else Inr (Some pBuf))"
| "sqlite3_uuid_input_to_blob (SqlBlob b) pBuf =
     (let n = int (length b) in Inr (if n = 16 then Some b else None))"
| "sqlite3_uuid_input_to_blob _ pBuf = Inr None"

subsection \<open>The SQL functions\<close>

text \<open>
  \<^verbatim>\<open>uuid4()\<close>: \<open>rnd\<close> is what \<^verbatim>\<open>sqlite3_randomness(16, aBlob)\<close> has put into \<open>aBlob\<close>. The
  result is the text handed to \<^verbatim>\<open>sqlite3_result_text\<close> with length 36.
\<close>

definition sqlite3_uuid :: "byte list \<Rightarrow> fault + string" where
  "sqlite3_uuid rnd =
     (let aBlob = rnd in
      case rd aBlob 6 of
        Inl e \<Rightarrow> Inl e
      | Inr b6 \<Rightarrow>
          (let aBlob = aBlob[6 := (b6 AND 0x0f) + 0x40] in
           case rd aBlob 8 of
             Inl e \<Rightarrow> Inl e
           | Inr b8 \<Rightarrow>
               (let aBlob = aBlob[8 := (b8 AND 0x3f) + 0x80] in
                case sqlite3_uuid_blob_to_str aBlob of
                  Inl e \<Rightarrow> Inl e
                | Inr zStr \<Rightarrow> Inr (take 36 zStr))))"

text \<open>
  \<^verbatim>\<open>uuid_str(X)\<close> and \<^verbatim>\<open>uuid_blob(X)\<close>: \<open>aBlob\<close> is the local array of 16 bytes, whose
  initial contents are indeterminate. \<open>None\<close> is a return without a result (SQL NULL).
\<close>

definition sqlite3_uuid_str :: "sqlite3_value \<Rightarrow> byte list \<Rightarrow> fault + string option" where
  "sqlite3_uuid_str arg aBlob =
     (case sqlite3_uuid_input_to_blob arg aBlob of
        Inl e \<Rightarrow> Inl e
      | Inr None \<Rightarrow> Inr None
      | Inr (Some pBlob) \<Rightarrow>
          (case sqlite3_uuid_blob_to_str pBlob of
             Inl e \<Rightarrow> Inl e
           | Inr zStr \<Rightarrow> Inr (Some (take 36 zStr))))"

definition sqlite3_uuid_blob :: "sqlite3_value \<Rightarrow> byte list \<Rightarrow> fault + byte list option" where
  "sqlite3_uuid_blob arg aBlob =
     (case sqlite3_uuid_input_to_blob arg aBlob of
        Inl e \<Rightarrow> Inl e
      | Inr None \<Rightarrow> Inr None
      | Inr (Some pBlob) \<Rightarrow> Inr (Some (take 16 pBlob)))"

section \<open>Vocabulary of the statements\<close>

text \<open>
  The definitions of this section are not part of the C file. They name what the statements
  talk about; the lemmas relate them to the embedded routines.
\<close>

subsection \<open>Hexadecimal digits and their values\<close>

definition xdigit :: "char \<Rightarrow> bool" where
  "xdigit c = isxdigit (of_char c)"

text \<open>The value of a hexadecimal digit, in either case.\<close>

definition hexval :: "char \<Rightarrow> byte" where
  "hexval c =
     (let n = (of_char c :: nat) in
      if of_char CHR ''0'' \<le> n \<and> n \<le> of_char CHR ''9'' then of_nat (n - of_char CHR ''0'')
      else if of_char CHR ''a'' \<le> n \<and> n \<le> of_char CHR ''f'' then of_nat (n - of_char CHR ''a'' + 10)
      else of_nat (n - of_char CHR ''A'' + 10))"

text \<open>The lower-case form of a hexadecimal digit; other characters are left alone.\<close>

definition hex_lower :: "char \<Rightarrow> char" where
  "hex_lower c =
     (if c = CHR ''A'' then CHR ''a'' else if c = CHR ''B'' then CHR ''b''
      else if c = CHR ''C'' then CHR ''c'' else if c = CHR ''D'' then CHR ''d''
      else if c = CHR ''E'' then CHR ''e'' else if c = CHR ''F'' then CHR ''f'' else c)"

text \<open>The byte denoted by a pair of digits, high nibble first.\<close>

definition hexbyte :: "char \<Rightarrow> char \<Rightarrow> byte" where
  "hexbyte h l = push_bit 4 (hexval h) + hexval l"

text \<open>The bytes denoted by a sequence of digits, taken two at a time.\<close>

fun hex_pairs :: "string \<Rightarrow> byte list" where
  "hex_pairs (h # l # ds) = hexbyte h l # hex_pairs ds"
| "hex_pairs _ = []"

subsection \<open>The loose form accepted by the parser\<close>

text \<open>
  A byte group is two hexadecimal digits, optionally preceded by one hyphen. A text is in
  loose form when it is 16 byte groups, optionally preceded by an opening brace and
  optionally followed by a closing brace.
\<close>

fun is_group :: "string \<Rightarrow> bool" where
  "is_group [h, l] = (xdigit h \<and> xdigit l)"
| "is_group [d, h, l] = (d = CHR ''-'' \<and> xdigit h \<and> xdigit l)"
| "is_group _ = False"

fun group_byte :: "string \<Rightarrow> byte" where
  "group_byte [h, l] = hexbyte h l"
| "group_byte [d, h, l] = hexbyte h l"
| "group_byte _ = 0"

definition loose :: "string \<Rightarrow> string list \<Rightarrow> bool" where
  "loose s gs \<longleftrightarrow>
     length gs = 16 \<and> list_all is_group gs \<and>
     (\<exists>ob \<in> {[], [CHR ''{'']}. \<exists>cb \<in> {[], [CHR ''}'']}. s = ob @ concat gs @ cb)"

text \<open>Two hyphens in a row, anywhere in the text.\<close>

fun double_hyphen :: "string \<Rightarrow> bool" where
  "double_hyphen (a # b # s) = ((a = CHR ''-'' \<and> b = CHR ''-'') \<or> double_hyphen (b # s))"
| "double_hyphen _ = False"

text \<open>
  The \<^verbatim>\<open>int\<close> that \<^verbatim>\<open>sqlite3_uuid_str_to_blob\<close> returns on the text \<open>s\<close> as the host hands it
  over, without the buffer.
\<close>

definition str_to_blob_rc :: "string \<Rightarrow> byte list \<Rightarrow> fault + int" where
  "str_to_blob_rc s aBlob = map_sum id fst (sqlite3_uuid_str_to_blob (sqlite3_value_text s) aBlob)"

subsection \<open>The canonical text\<close>

text \<open>
  The two digits of a byte, the digits of byte \<open>i\<close> with the hyphen that precedes bytes 4, 6,
  8 and 10, and the text of 16 bytes. A text has the canonical shape when it has 36
  characters, hyphens at offsets 8, 13, 18 and 23 and lower-case hexadecimal digits elsewhere.
\<close>

definition hex2 :: "byte \<Rightarrow> string" where
  "hex2 x = [zDigits ! unat (drop_bit 4 x), zDigits ! unat (x AND 0xf)]"

definition fmt_group :: "nat \<Rightarrow> byte \<Rightarrow> string" where
  "fmt_group i x = (if i \<in> {4, 6, 8, 10} then [CHR ''-''] else []) @ hex2 x"

definition canonical_text :: "byte list \<Rightarrow> string" where
  "canonical_text b = concat (map (\<lambda>i. fmt_group i (b ! i)) [0..<16])"

definition canonical :: "string \<Rightarrow> bool" where
  "canonical u \<longleftrightarrow>
     length u = 36 \<and>
     (\<forall>i \<in> set [0..<36]. if i \<in> {8, 13, 18, 23} then u ! i = CHR ''-'' else u ! i \<in> set zDigits)"

subsection \<open>The parser on list patterns\<close>

text \<open>
  One iteration of the parser loop, seen from the pointer: \<open>pair_at\<close> is the test of the two
  digits and the byte they give, \<open>step\<close> puts the skip of the hyphen before it. \<open>Inr None\<close>
  stands for \<^verbatim>\<open>return 1\<close>, \<open>Inr (Some (v, z))\<close> for the byte stored and the pointer after the
  pair. \<open>finish\<close> is the code behind the loop. Lemmas \<open>loop_unfold\<close> and \<open>str_to_blob_Cons\<close>
  prove that the embedded routine computes exactly this.
\<close>

fun pair_at :: "string \<Rightarrow> fault + (byte \<times> string) option" where
  "pair_at [] = Inl ReadOutOfBounds"
| "pair_at [c0] = (if xdigit c0 then Inl ReadOutOfBounds else Inr None)"
| "pair_at (c0 # c1 # z) = (if xdigit c0 \<and> xdigit c1 then Inr (Some (hexbyte c0 c1, z)) else Inr None)"

fun step :: "string \<Rightarrow> fault + (byte \<times> string) option" where
  "step [] = Inl ReadOutOfBounds"
| "step (c # z) = (if c = CHR ''-'' then pair_at z else pair_at (c # z))"

definition finish :: "string \<Rightarrow> byte list \<Rightarrow> fault + (int \<times> byte list)" where
  "finish z b =
     (case z of
        [] \<Rightarrow> Inl ReadOutOfBounds
      | x # t \<Rightarrow>
          (case (if x = CHR ''}'' then t else z) of
             [] \<Rightarrow> Inl ReadOutOfBounds
           | y # u \<Rightarrow> Inr (if y \<noteq> NUL then 1 else 0, b)))"


section \<open>Auxiliary lemmas\<close>

subsection \<open>Hexadecimal digits\<close>

lemma nat_range_cases:
  "48 \<le> (n::nat) \<Longrightarrow> n \<le> 57 \<Longrightarrow> n \<in> {48, 49, 50, 51, 52, 53, 54, 55, 56, 57}"
  "97 \<le> (n::nat) \<Longrightarrow> n \<le> 102 \<Longrightarrow> n \<in> {97, 98, 99, 100, 101, 102}"
  "65 \<le> (n::nat) \<Longrightarrow> n \<le> 70 \<Longrightarrow> n \<in> {65, 66, 67, 68, 69, 70}"
  by (simp, arith)+

lemma isxdigit_cases:
  assumes "xdigit c"
  shows "c \<in> set ''0123456789abcdefABCDEF''"
proof -
  define n :: nat where "n = of_char c"
  have c: "c = char_of (int n)" by (simp add: n_def of_nat_of_char)
  have "(of_char c :: int) = int n" by (simp add: n_def of_nat_of_char)
  with assms have "(48 \<le> n \<and> n \<le> 57) \<or> (97 \<le> n \<and> n \<le> 102) \<or> (65 \<le> n \<and> n \<le> 70)"
    by (simp add: isxdigit_def xdigit_def)
  then have "n \<in> {48, 49, 50, 51, 52, 53, 54, 55, 56, 57} \<union> {97, 98, 99, 100, 101, 102}
       \<union> {65, 66, 67, 68, 69, 70}"
    using nat_range_cases [of n] by blast
  then show ?thesis unfolding c
    by (elim UnE insertE emptyE) (simp_all add: char_of_def)
qed

lemma HexToInt_hexval:
  assumes "xdigit c"
  shows "sqlite3UuidHexToInt (of_char c) = Inr (hexval c)"
proof -
  have "\<forall>c \<in> set ''0123456789abcdefABCDEF''. sqlite3UuidHexToInt (of_char c) = Inr (hexval c)"
    by (simp add: sqlite3UuidHexToInt_def hexval_def)
  then show ?thesis using isxdigit_cases [OF assms] by blast
qed

lemma hexval_less:
  assumes "xdigit c"
  shows "unat (hexval c) < 16"
proof -
  have "\<forall>c \<in> set ''0123456789abcdefABCDEF''. unat (hexval c) < 16"
    by (simp add: hexval_def)
  then show ?thesis using isxdigit_cases [OF assms] by blast
qed

lemma hexval_lower:
  assumes "xdigit c"
  shows "hexval (hex_lower c) = hexval c \<and> xdigit (hex_lower c) \<and> zDigits ! unat (hexval c) = hex_lower c"
proof -
  have "\<forall>c \<in> set ''0123456789abcdefABCDEF''.
      hexval (hex_lower c) = hexval c \<and> xdigit (hex_lower c) \<and> zDigits ! unat (hexval c) = hex_lower c"
    by (simp add: hexval_def hex_lower_def xdigit_def isxdigit_def zDigits_def)
  then show ?thesis using isxdigit_cases [OF assms] by blast
qed

lemma xdigit_not_special:
  assumes "xdigit c"
  shows "c \<noteq> CHR ''-''" "c \<noteq> CHR ''{''" "c \<noteq> CHR ''}''" "c \<noteq> NUL"
  using assms by (auto simp: xdigit_def isxdigit_def NUL_def)

lemma zDigits_nth:
  assumes "n < 16"
  shows "xdigit (zDigits ! n)" "hexval (zDigits ! n) = of_nat n" "hex_lower (zDigits ! n) = zDigits ! n"
proof -
  have "\<forall>n \<in> set [0..<16]. xdigit (zDigits ! n) \<and> hexval (zDigits ! n) = of_nat n \<and> hex_lower (zDigits ! n) = zDigits ! n"
    by (simp add: upt_conv_Cons zDigits_def xdigit_def isxdigit_def hexval_def hex_lower_def)
  with assms show "xdigit (zDigits ! n)" "hexval (zDigits ! n) = of_nat n" "hex_lower (zDigits ! n) = zDigits ! n" by simp_all
qed

declare blob_to_str_loop.simps [simp del]

declare str_to_blob_loop.simps [simp del]

subsection \<open>The formatter loop\<close>

lemma k_bits:
  assumes "i < 16"
  shows "(drop_bit i (0x550::int) AND 1 \<noteq> 0) = (i \<in> {4, 6, 8, 10})"
proof -
  have "\<forall>i \<in> set [0..<16]. (drop_bit i (0x550::int) AND 1 \<noteq> 0) = (i \<in> {4, 6, 8, 10})"
    by (simp add: upt_conv_Cons)
  with assms show ?thesis by simp
qed

lemma blob_to_str_loop_eq:
  assumes "length b = 16"
  shows "i \<le> 16 \<Longrightarrow>
    blob_to_str_loop i (drop_bit i 0x550) b out =
      Inr (out @ concat (map (\<lambda>j. fmt_group j (b ! j)) [i..<16]))"
proof (induction "16 - i" arbitrary: i out)
  case 0
  then have "i = 16" by simp
  then show ?case by (simp add: blob_to_str_loop.simps [of 16])
next
  case (Suc n)
  then have i: "i < 16" and n: "n = 16 - Suc i" by simp_all
  have up: "[i..<16] = i # [Suc i..<16]" using i by (simp add: upt_conv_Cons)
  have IH: "\<And>out. blob_to_str_loop (Suc i) (drop_bit (Suc i) 0x550) b out =
      Inr (out @ concat (map (\<lambda>j. fmt_group j (b ! j)) [Suc i..<16]))"
    using Suc.hyps(1) [OF n] i by simp
  define h where "h = (i \<in> {4, 6, 8, 10})"
  define k where "k = drop_bit i (0x550::int)"
  define k' where "k' = drop_bit (Suc i) (0x550::int)"
  have db: "drop_bit (Suc 0) k = k'"
    by (simp add: k_def k'_def)
  have kb: "(k AND 1 \<noteq> 0) = h"
    using k_bits [OF i] by (simp only: h_def k_def)
  have fg: "fmt_group i (b ! i) = (if h then [CHR ''-''] else []) @ hex2 (b ! i)"
    by (simp only: fmt_group_def h_def)
  have r: "rd b i = Inr (b ! i)"
    using i assms by (simp add: rd_def)
  have "blob_to_str_loop i k b out = blob_to_str_loop (Suc i) k' b (out @ fmt_group i (b ! i))"
    by (subst blob_to_str_loop.simps) (simp add: i r kb fg db hex2_def Let_def)
  then show ?case
    by (simp only: IH up k_def [symmetric] k'_def) simp
qed

lemma blob_to_str_canonical_text:
  assumes "length b = 16"
  shows "sqlite3_uuid_blob_to_str b = Inr (canonical_text b @ [NUL])"
  using blob_to_str_loop_eq [OF assms, of 0 "[]"]
  by (simp add: sqlite3_uuid_blob_to_str_def canonical_text_def)

subsection \<open>The parser loop, one iteration at a time\<close>

lemma rd_simps:
  "rd [] k = Inl ReadOutOfBounds"
  "rd (c # z) 0 = Inr c"
  "rd (c # z) (Suc k) = rd z k"
  by (simp_all add: rd_def)

lemma loop_done: "16 \<le> i \<Longrightarrow> str_to_blob_loop i z a = Inr (Fallthrough z a)"
  by (subst str_to_blob_loop.simps) simp

lemma loop_unfold:
  assumes "i < 16"
  shows "str_to_blob_loop i z a =
    (case step z of
       Inl e \<Rightarrow> Inl e
     | Inr None \<Rightarrow> Inr (Return 1 a)
     | Inr (Some (v, z')) \<Rightarrow>
         if i < length a then str_to_blob_loop (Suc i) z' (a[i := v]) else Inl WriteOutOfBounds)"
proof -
  have body: "\<And>y. (case rd y 0 of
                Inl e \<Rightarrow> Inl e
              | Inr c0 \<Rightarrow>
                  if \<not> isxdigit (of_char c0) then Inr (Return 1 a)
                  else
                    (case rd y 1 of
                       Inl e \<Rightarrow> Inl e
                     | Inr c1 \<Rightarrow>
                         if \<not> isxdigit (of_char c1) then Inr (Return 1 a)
                         else
                           (case sqlite3UuidHexToInt (of_char c0) of
                              Inl e \<Rightarrow> Inl e
                            | Inr hi \<Rightarrow>
                                (case sqlite3UuidHexToInt (of_char c1) of
                                   Inl e \<Rightarrow> Inl e
                                 | Inr lo \<Rightarrow>
                                     if i < length a
                                     then str_to_blob_loop (i + 1) (drop 2 y)
                                            (a[i := push_bit 4 hi + lo])
                                     else Inl WriteOutOfBounds)))) =
    (case pair_at y of
       Inl e \<Rightarrow> Inl e
     | Inr None \<Rightarrow> Inr (Return 1 a)
     | Inr (Some (v, z')) \<Rightarrow>
         if i < length a then str_to_blob_loop (Suc i) z' (a[i := v]) else Inl WriteOutOfBounds)"
  proof -
    fix y show "?thesis y"
      by (cases y rule: pair_at.cases)
        (simp_all add: rd_simps xdigit_def [symmetric] HexToInt_hexval hexbyte_def)
  qed
  show ?thesis
    apply (subst str_to_blob_loop.simps)
    apply (simp only: assms if_True Let_def body)
    apply (cases z)
     apply (simp_all add: rd_simps)
    done
qed

subsection \<open>Byte groups and the parser loop\<close>

lemma is_group_cases:
  assumes "is_group g"
  obtains h l where "xdigit h" "xdigit l" "g = [h, l]"
  | h l where "xdigit h" "xdigit l" "g = [CHR ''-'', h, l]"
  using assms by (cases g rule: is_group.cases) auto

lemma step_group:
  assumes "is_group g"
  shows "step (g @ z) = Inr (Some (group_byte g, z))"
  using assms by (cases g rule: is_group.cases) (auto dest: xdigit_not_special)

lemma pair_at_Some:
  assumes "pair_at y = Inr (Some (v, z'))"
  shows "\<exists>h l. xdigit h \<and> xdigit l \<and> y = h # l # z' \<and> v = hexbyte h l"
  using assms by (cases y rule: pair_at.cases) (auto split: if_splits)

lemma step_Some:
  assumes "step z = Inr (Some (v, z'))"
  shows "\<exists>g. is_group g \<and> z = g @ z' \<and> v = group_byte g"
proof (cases z)
  case Nil
  with assms show ?thesis by simp
next
  case (Cons c t)
  show ?thesis
  proof (cases "c = CHR ''-''")
    case True
    with assms Cons obtain h l where "xdigit h" "xdigit l" "t = h # l # z'" "v = hexbyte h l"
      using pair_at_Some [of t v z'] by auto
    then have "is_group [CHR ''-'', h, l] \<and> z = [CHR ''-'', h, l] @ z' \<and> v = group_byte [CHR ''-'', h, l]"
      using Cons True by simp
    then show ?thesis by blast
  next
    case False
    with assms Cons obtain h l where "xdigit h" "xdigit l" "z = h # l # z'" "v = hexbyte h l"
      using pair_at_Some [of z v z'] by auto
    then have "is_group [h, l] \<and> z = [h, l] @ z' \<and> v = group_byte [h, l]"
      by simp
    then show ?thesis by blast
  qed
qed

lemma loop_complete:
  assumes "list_all is_group gs" "i + length gs = 16" "length a = 16"
  shows "str_to_blob_loop i (concat gs @ rest) a =
           Inr (Fallthrough rest (take i a @ map group_byte gs))"
  using assms
proof (induction gs arbitrary: i a)
  case Nil
  then show ?case by (simp add: loop_done)
next
  case (Cons g gs)
  then have i: "i < 16" "i < length a" and g: "is_group g" by simp_all
  have "str_to_blob_loop i (concat (g # gs) @ rest) a =
        str_to_blob_loop (Suc i) (concat gs @ rest) (a[i := group_byte g])"
    using i by (simp add: loop_unfold step_group [OF g])
  also have "\<dots> = Inr (Fallthrough rest (take (Suc i) (a[i := group_byte g]) @ map group_byte gs))"
    using Cons.prems by (intro Cons.IH) simp_all
  also have "take (Suc i) (a[i := group_byte g]) = take i a @ [group_byte g]"
    using i by (simp add: take_Suc_conv_app_nth)
  finally show ?case by simp
qed

lemma loop_sound:
  assumes "str_to_blob_loop i z a = Inr (Fallthrough rest blob)" "i \<le> 16" "length a = 16"
  shows "\<exists>gs. list_all is_group gs \<and> i + length gs = 16 \<and> z = concat gs @ rest \<and>
              blob = take i a @ map group_byte gs"
  using assms
proof (induction "16 - i" arbitrary: i z a)
  case 0
  then have "i = 16" by simp
  with "0.prems" have "z = rest" "blob = a" by (simp_all add: loop_done)
  then show ?case using \<open>i = 16\<close> "0.prems" by simp
next
  case (Suc n)
  then have i: "i < 16" "i < length a" and n: "n = 16 - Suc i" by simp_all
  from Suc.prems(1) i obtain v z' where st: "step z = Inr (Some (v, z'))"
    and rec: "str_to_blob_loop (Suc i) z' (a[i := v]) = Inr (Fallthrough rest blob)"
    by (auto simp: loop_unfold split: sum.splits option.splits)
  from step_Some [OF st] obtain g where g: "is_group g" "z = g @ z'" "v = group_byte g"
    by blast
  from Suc.hyps(1) [OF n rec] i Suc.prems obtain gs where gs: "list_all is_group gs"
    "Suc i + length gs = 16" "z' = concat gs @ rest"
    "blob = take (Suc i) (a[i := v]) @ map group_byte gs"
    by auto
  have "take (Suc i) (a[i := v]) = take i a @ [v]"
    using i by (simp add: take_Suc_conv_app_nth)
  with g gs have "list_all is_group (g # gs) \<and> i + length (g # gs) = 16 \<and>
      z = concat (g # gs) @ rest \<and> blob = take i a @ map group_byte (g # gs)"
    by simp
  then show ?case by blast
qed

subsection \<open>Buffers that hold a terminator\<close>

lemma NUL_not_special: "NUL \<noteq> CHR ''-''" "NUL \<noteq> CHR ''{''" "NUL \<noteq> CHR ''}''" "\<not> xdigit NUL"
  by (simp_all add: NUL_def xdigit_def isxdigit_def)

lemma is_group_no_NUL:
  assumes "is_group g"
  shows "NUL \<notin> set g"
  using assms by (cases g rule: is_group.cases) (auto simp: NUL_not_special)

lemma pair_at_fault:
  assumes "pair_at y = Inl e"
  shows "e = ReadOutOfBounds \<and> NUL \<notin> set y"
  using assms by (cases y rule: pair_at.cases) (auto split: if_splits simp: NUL_not_special)

lemma step_fault:
  assumes "step z = Inl e"
  shows "e = ReadOutOfBounds \<and> NUL \<notin> set z"
  using assms by (cases z) (auto split: if_splits dest: pair_at_fault simp: NUL_not_special)

lemma pair_at_nonhex:
  assumes "\<not> xdigit c"
  shows "pair_at (c # t) = Inr None"
  using assms by (cases t) simp_all

lemma pair_at_append:
  assumes "NUL \<in> set y"
  shows "pair_at (y @ junk) =
    (case pair_at y of Inr (Some (v, z')) \<Rightarrow> Inr (Some (v, z' @ junk)) | x \<Rightarrow> x)"
  using assms
  by (cases y rule: pair_at.cases) (auto simp: NUL_not_special pair_at_nonhex)

lemma step_append:
  assumes "NUL \<in> set z"
  shows "step (z @ junk) =
    (case step z of Inr (Some (v, z')) \<Rightarrow> Inr (Some (v, z' @ junk)) | x \<Rightarrow> x)"
proof (cases z)
  case Nil
  with assms show ?thesis by simp
next
  case (Cons c t)
  show ?thesis
  proof (cases "c = CHR ''-''")
    case True
    with assms Cons have "NUL \<in> set t" by (simp add: NUL_not_special)
    from pair_at_append [OF this, of junk] show ?thesis using Cons True by simp
  next
    case False
    from pair_at_append [OF assms, of junk] show ?thesis using Cons False by simp
  qed
qed

lemma step_Some_NUL:
  assumes "step z = Inr (Some (v, z'))" "NUL \<in> set z"
  shows "NUL \<in> set z'"
  using step_Some [OF assms(1)] assms(2) by (auto dest: is_group_no_NUL)

lemma loop_junk:
  assumes "NUL \<in> set z"
  shows "str_to_blob_loop i (z @ junk) a =
    (case str_to_blob_loop i z a of
       Inr (Fallthrough r b) \<Rightarrow> Inr (Fallthrough (r @ junk) b)
     | x \<Rightarrow> x)"
  using assms
proof (induction "16 - i" arbitrary: i z a)
  case 0
  then show ?case by (simp add: loop_done)
next
  case (Suc n)
  then have i: "i < 16" and n: "n = 16 - Suc i" by simp_all
  show ?case
  proof (cases "step z")
    case (Inl e)
    then show ?thesis using i Suc.prems by (simp add: loop_unfold step_append)
  next
    case (Inr r)
    show ?thesis
    proof (cases r)
      case None
      then show ?thesis using i Inr Suc.prems by (simp add: loop_unfold step_append)
    next
      case (Some p)
      obtain v z' where p: "p = (v, z')" by (cases p)
      have "NUL \<in> set z'" using step_Some_NUL Inr Some p Suc.prems by blast
      from Suc.hyps(1) [OF n this]
      show ?thesis using i Inr Some p Suc.prems by (simp add: loop_unfold step_append)
    qed
  qed
qed

lemma loop_exits:
  assumes "NUL \<in> set z"
  shows "str_to_blob_loop i z a = Inl WriteOutOfBounds \<and> length a < 16 \<or>
         (\<exists>b. str_to_blob_loop i z a = Inr (Return 1 b) \<and> length b = length a) \<or>
         (\<exists>r b. str_to_blob_loop i z a = Inr (Fallthrough r b) \<and> NUL \<in> set r \<and> length b = length a)"
  using assms
proof (induction "16 - i" arbitrary: i z a)
  case 0
  then show ?case by (simp add: loop_done)
next
  case (Suc n)
  then have i: "i < 16" and n: "n = 16 - Suc i" by simp_all
  show ?case
  proof (cases "step z")
    case (Inl e)
    then show ?thesis using step_fault Suc.prems by blast
  next
    case (Inr r)
    show ?thesis
    proof (cases r)
      case None
      then show ?thesis using i Inr by (simp add: loop_unfold)
    next
      case (Some p)
      obtain v z' where p: "p = (v, z')" by (cases p)
      have "NUL \<in> set z'" using step_Some_NUL Inr Some p Suc.prems by blast
      from Suc.hyps(1) [OF n this, of "a[i := v]"]
      show ?thesis using i Inr Some p by (simp add: loop_unfold)
    qed
  qed
qed

subsection \<open>The whole parser\<close>

lemma str_to_blob_Nil: "sqlite3_uuid_str_to_blob [] a = Inl ReadOutOfBounds"
  by (simp add: sqlite3_uuid_str_to_blob_def rd_simps)

lemma str_to_blob_Cons:
  "sqlite3_uuid_str_to_blob (c # t) a =
     (case str_to_blob_loop 0 (if c = CHR ''{'' then t else c # t) a of
        Inl e \<Rightarrow> Inl e
      | Inr (Return r b) \<Rightarrow> Inr (r, b)
      | Inr (Fallthrough z b) \<Rightarrow> finish z b)"
proof -
  have fin: "\<And>z b. (case rd z 0 of
                  Inl e \<Rightarrow> Inl e
                | Inr c \<Rightarrow>
                    (case rd (if c = CHR ''}'' then drop 1 z else z) 0 of
                       Inl e \<Rightarrow> Inl e
                     | Inr c \<Rightarrow> Inr (if c \<noteq> NUL then 1 else 0, b))) = finish z b"
  proof -
    fix z b show "?thesis z b"
      by (cases z; cases "tl z") (auto simp: finish_def rd_simps)
  qed
  show ?thesis
    unfolding sqlite3_uuid_str_to_blob_def Let_def fin
    by (simp add: rd_simps)
qed

lemma finish_junk:
  assumes "NUL \<in> set z"
  shows "finish (z @ junk) b = finish z b" "finish z b \<noteq> Inl e"
    "\<exists>r. finish z b = Inr (r, b) \<and> (r = 0 \<or> r = 1)"
  using assms
  by (cases z; cases "tl z"; auto simp: finish_def NUL_not_special)+

lemma finish_0:
  "finish z b = Inr (0, b') \<longleftrightarrow> b' = b \<and> (\<exists>cb junk. (cb = [] \<or> cb = [CHR ''}'']) \<and> z = cb @ NUL # junk)"
  by (cases z; cases "tl z") (auto simp: finish_def NUL_not_special split: if_splits list.splits)

lemma looseE:
  assumes "loose s gs"
  obtains ob cb where "s = ob @ concat gs @ cb" "ob = [] \<or> ob = [CHR ''{'']"
    "cb = [] \<or> cb = [CHR ''}'']" "length gs = 16" "list_all is_group gs"
proof -
  from assms obtain ob cb where "ob \<in> {[], [CHR ''{'']}" "cb \<in> {[], [CHR ''}'']}"
    "s = ob @ concat gs @ cb"
    unfolding loose_def by blast
  moreover from assms have "length gs = 16" "list_all is_group gs"
    unfolding loose_def by blast+
  ultimately show ?thesis using that [of ob cb] by simp
qed

lemma looseI:
  assumes "s = ob @ concat gs @ cb" "ob = [] \<or> ob = [CHR ''{'']"
    "cb = [] \<or> cb = [CHR ''}'']" "length gs = 16" "list_all is_group gs"
  shows "loose s gs"
  using assms unfolding loose_def by auto

lemma is_group_hd:
  assumes "is_group g"
  shows "\<exists>c t. g = c # t \<and> c \<noteq> CHR ''{''"
  using assms by (cases g rule: is_group.cases) (auto dest: xdigit_not_special)

lemma groups_hd:
  assumes "list_all is_group gs" "gs \<noteq> []"
  shows "\<exists>c t. concat gs = c # t \<and> c \<noteq> CHR ''{''"
proof -
  from assms obtain g gs' where "gs = g # gs'" "is_group g" by (cases gs) auto
  with is_group_hd [of g] show ?thesis by auto
qed

lemma parse_groups:
  assumes "list_all is_group gs" "length gs = 16" "length a = 16"
    and ob: "ob = [] \<or> ob = [CHR ''{'']"
  shows "sqlite3_uuid_str_to_blob (ob @ concat gs @ rest) a = finish rest (map group_byte gs)"
proof -
  have lp: "str_to_blob_loop 0 (concat gs @ rest) a = Inr (Fallthrough rest (map group_byte gs))"
    using loop_complete [OF assms(1), of 0 a rest] assms(2,3) by simp
  from ob show ?thesis
  proof
    assume "ob = []"
    moreover have "gs \<noteq> []" using assms(2) by auto
    from groups_hd [OF assms(1) this] obtain c t where ct: "concat gs = c # t" "c \<noteq> CHR ''{''"
      by blast
    ultimately have "sqlite3_uuid_str_to_blob (ob @ concat gs @ rest) a =
        (case str_to_blob_loop 0 (concat gs @ rest) a of
          Inl e \<Rightarrow> Inl e
        | Inr (Return r b) \<Rightarrow> Inr (r, b)
        | Inr (Fallthrough z b) \<Rightarrow> finish z b)"
      using str_to_blob_Cons [of c "t @ rest" a] by simp
    then show ?thesis by (simp add: lp)
  next
    assume "ob = [CHR ''{'']"
    then have "sqlite3_uuid_str_to_blob (ob @ concat gs @ rest) a =
        (case str_to_blob_loop 0 (concat gs @ rest) a of
          Inl e \<Rightarrow> Inl e
        | Inr (Return r b) \<Rightarrow> Inr (r, b)
        | Inr (Fallthrough z b) \<Rightarrow> finish z b)"
      using str_to_blob_Cons [of "CHR ''{''" "concat gs @ rest" a] by simp
    then show ?thesis by (simp add: lp)
  qed
qed

lemma parse_complete:
  assumes "loose s gs" "length a = 16"
  shows "sqlite3_uuid_str_to_blob (s @ NUL # junk) a = Inr (0, map group_byte gs)"
proof -
  from assms(1) obtain ob cb where s: "s = ob @ concat gs @ cb"
    and ob: "ob = [] \<or> ob = [CHR ''{'']" and cb: "cb = [] \<or> cb = [CHR ''}'']"
    and gs: "length gs = 16" "list_all is_group gs"
    by (rule looseE)
  have "finish (cb @ NUL # junk) (map group_byte gs) = Inr (0, map group_byte gs)"
    using cb by (auto simp: finish_def NUL_not_special)
  with parse_groups [OF gs(2,1) assms(2) ob, of "cb @ NUL # junk"] show ?thesis
    by (simp add: s)
qed

lemma loop_Return_1:
  assumes "str_to_blob_loop i z a = Inr (Return r b)"
  shows "r = 1"
  using assms
proof (induction "16 - i" arbitrary: i z a)
  case 0
  then show ?case by (simp add: loop_done)
next
  case (Suc n)
  then have i: "i < 16" and n: "n = 16 - Suc i" by simp_all
  from Suc.prems i Suc.hyps(1) [OF n] show ?case
    by (auto simp: loop_unfold split: sum.splits option.splits if_splits)
qed

lemma parse_sound:
  assumes "sqlite3_uuid_str_to_blob zs a = Inr (0, blob)" "length a = 16"
  shows "\<exists>s gs junk. zs = s @ NUL # junk \<and> loose s gs \<and> blob = map group_byte gs"
proof (cases zs)
  case Nil
  with assms show ?thesis by (simp add: str_to_blob_Nil)
next
  case (Cons c t)
  define ob where "ob = (if c = CHR ''{'' then [c] else [])"
  define y where "y = (if c = CHR ''{'' then t else c # t)"
  have zs: "zs = ob @ y" by (simp add: ob_def y_def Cons)
  have ob: "ob \<in> {[], [CHR ''{'']}" by (simp add: ob_def)
  from assms(1) obtain z where lp: "str_to_blob_loop 0 y a = Inr (Fallthrough z blob)"
    and fin: "finish z blob = Inr (0, blob)"
    unfolding Cons str_to_blob_Cons y_def [symmetric]
    by (auto split: sum.splits loop_exit.splits dest: loop_Return_1 simp: finish_0)
  from fin obtain cb junk where cb: "cb = [] \<or> cb = [CHR ''}'']" "z = cb @ NUL # junk"
    by (auto simp: finish_0)
  from loop_sound [OF lp _ assms(2)] obtain gs where gs: "list_all is_group gs"
    "length gs = 16" "y = concat gs @ z" "blob = map group_byte gs"
    by auto
  have "loose (ob @ concat gs @ cb) gs"
    using gs cb ob by (intro looseI [of _ ob gs cb]) auto
  then have "zs = (ob @ concat gs @ cb) @ NUL # junk \<and> loose (ob @ concat gs @ cb) gs \<and>
      blob = map group_byte gs"
    using zs gs cb by simp
  then show ?thesis by blast
qed

lemma loose_no_NUL:
  assumes "loose s gs"
  shows "NUL \<notin> set s"
proof -
  from assms obtain ob cb where s: "s = ob @ concat gs @ cb"
    and ob: "ob = [] \<or> ob = [CHR ''{'']" and cb: "cb = [] \<or> cb = [CHR ''}'']"
    and gs: "list_all is_group gs"
    by (rule looseE)
  from gs have "\<forall>g \<in> set gs. NUL \<notin> set g"
    using is_group_no_NUL by (simp add: list_all_iff)
  then have "NUL \<notin> set (concat gs)" by simp
  with ob cb show ?thesis by (auto simp: s NUL_not_special)
qed

lemma takeWhile_NUL:
  assumes "NUL \<notin> set s"
  shows "takeWhile (\<lambda>c. c \<noteq> NUL) (s @ NUL # j) = s"
  using assms by (induction s) auto

lemma first_NUL_unique:
  assumes "s @ NUL # j = s' @ NUL # j'" "NUL \<notin> set s" "NUL \<notin> set s'"
  shows "s = s' \<and> j = j'"
proof -
  have "takeWhile (\<lambda>c. c \<noteq> NUL) (s @ NUL # j) = s" "takeWhile (\<lambda>c. c \<noteq> NUL) (s' @ NUL # j') = s'"
    using assms(2,3) by (simp_all add: takeWhile_NUL)
  with assms(1) have "s = s'" by simp
  with assms(1) show ?thesis by simp
qed

lemma parse_iff:
  assumes "NUL \<notin> set s" "length a = 16"
  shows "sqlite3_uuid_str_to_blob (s @ [NUL]) a = Inr (0, blob) \<longleftrightarrow>
         (\<exists>gs. loose s gs \<and> blob = map group_byte gs)"
proof
  assume "sqlite3_uuid_str_to_blob (s @ [NUL]) a = Inr (0, blob)"
  from parse_sound [OF this assms(2)] obtain s' gs junk where
    *: "s @ [NUL] = s' @ NUL # junk" "loose s' gs" "blob = map group_byte gs"
    by blast
  from first_NUL_unique [of s "[]" s' junk] * assms(1) loose_no_NUL [OF *(2)]
  have "s = s'" by simp
  with * show "\<exists>gs. loose s gs \<and> blob = map group_byte gs" by blast
next
  assume "\<exists>gs. loose s gs \<and> blob = map group_byte gs"
  then show "sqlite3_uuid_str_to_blob (s @ [NUL]) a = Inr (0, blob)"
    using parse_complete [OF _ assms(2), of s _ "[]"] by auto
qed

lemma parse_total:
  assumes "NUL \<in> set zs" "length a = 16"
  shows "\<exists>r b. sqlite3_uuid_str_to_blob zs a = Inr (r, b) \<and> (r = 0 \<or> r = 1) \<and> length b = 16"
proof (cases zs)
  case Nil
  with assms show ?thesis by simp
next
  case (Cons c t)
  define y where "y = (if c = CHR ''{'' then t else c # t)"
  have y: "NUL \<in> set y" using assms(1) Cons by (auto simp: y_def NUL_not_special)
  from loop_exits [OF y, of 0 a] assms(2) consider
    b where "str_to_blob_loop 0 y a = Inr (Return 1 b)" "length b = 16"
    | r b where "str_to_blob_loop 0 y a = Inr (Fallthrough r b)" "NUL \<in> set r" "length b = 16"
    by auto
  then show ?thesis
  proof cases
    case 1
    then show ?thesis unfolding Cons str_to_blob_Cons y_def [symmetric] by simp
  next
    case 2
    from finish_junk(3) [OF 2(2), of b] 2(1,3) show ?thesis
      unfolding Cons str_to_blob_Cons y_def [symmetric] by auto
  qed
qed

lemma parse_junk:
  assumes "NUL \<in> set zs"
  shows "sqlite3_uuid_str_to_blob (zs @ junk) a = sqlite3_uuid_str_to_blob zs a"
    and "sqlite3_uuid_str_to_blob zs a \<noteq> Inl ReadOutOfBounds"
    and "sqlite3_uuid_str_to_blob zs a \<noteq> Inl AssertionFailed"
proof -
  from assms obtain c t where Cons: "zs = c # t" by (cases zs) auto
  define y where "y = (if c = CHR ''{'' then t else c # t)"
  have y: "NUL \<in> set y" using assms(1) Cons by (auto simp: y_def NUL_not_special)
  have y': "(if c = CHR ''{'' then t @ junk else c # t @ junk) = y @ junk"
    by (simp add: y_def)
  show "sqlite3_uuid_str_to_blob (zs @ junk) a = sqlite3_uuid_str_to_blob zs a"
    using loop_exits [OF y, of 0 a]
    unfolding Cons append_Cons str_to_blob_Cons y' y_def [symmetric] loop_junk [OF y]
    by (auto simp: finish_junk(1))
  show "sqlite3_uuid_str_to_blob zs a \<noteq> Inl ReadOutOfBounds"
    using loop_exits [OF y, of 0 a]
    unfolding Cons str_to_blob_Cons y_def [symmetric]
    by (auto simp: finish_junk(2))
  show "sqlite3_uuid_str_to_blob zs a \<noteq> Inl AssertionFailed"
    using loop_exits [OF y, of 0 a]
    unfolding Cons str_to_blob_Cons y_def [symmetric]
    by (auto simp: finish_junk(2))
qed

subsection \<open>Nibbles of a byte\<close>

lemma m4: "(0xf :: byte) = mask 4"
  by (simp add: mask_eq_exp_minus_1)

lemma nibbles_ident: "push_bit 4 (drop_bit 4 x) + (x AND 0xf) = (x::byte)"
  unfolding m4 take_bit_eq_mask [symmetric] by (rule bits_ident)

lemma hi_nibble_less: "unat (drop_bit 4 (x::byte)) < 16"
proof -
  have "unat (drop_bit 4 x) = unat x div 16" by (simp add: drop_bit_eq_div unat_div)
  moreover have "unat x < 256" using unsigned_less [of x] by simp
  ultimately show ?thesis by simp
qed

lemma lo_nibble_less: "unat ((x::byte) AND 0xf) < 16"
proof -
  have "unat (x AND 0xf) = unat x mod 16"
    unfolding m4 take_bit_eq_mask [symmetric] by (simp add: take_bit_eq_mod unat_mod)
  then show ?thesis by simp
qed

lemma hi_nibble_join:
  assumes "unat a < 16" "unat b < 16"
  shows "drop_bit 4 (push_bit 4 a + b) = (a :: byte)" 
proof -
  have "unat (push_bit 4 a + b) = 16 * unat a + unat b"
    using assms by (simp add: push_bit_eq_mult unat_word_ariths)
  then have "unat (drop_bit 4 (push_bit 4 a + b)) = unat a"
    using assms by (simp add: drop_bit_eq_div unat_div)
  then show ?thesis by (simp only: word_unat_eq_iff)
qed

lemma lo_nibble_join:
  assumes "unat a < 16" "unat b < 16"
  shows "(push_bit 4 a + b) AND 0xf = (b :: byte)" 
proof -
  have "unat (push_bit 4 a + b) = 16 * unat a + unat b"
    using assms by (simp add: push_bit_eq_mult unat_word_ariths)
  then have "unat ((push_bit 4 a + b) AND 0xf) = unat b"
    unfolding m4 take_bit_eq_mask [symmetric] using assms by (simp add: take_bit_eq_mod unat_mod)
  then show ?thesis by (simp only: word_unat_eq_iff)
qed

subsection \<open>Digits written by the formatter\<close>

lemma hex2_xdigit: "list_all xdigit (hex2 x)"
  by (simp add: hex2_def zDigits_nth(1) hi_nibble_less lo_nibble_less)

lemma hex2_in_zDigits: "set (hex2 x) \<subseteq> set zDigits"
proof -
  have "length zDigits = 16" by (simp add: zDigits_def)
  then show ?thesis
    using hi_nibble_less [of x] lo_nibble_less [of x] by (simp add: hex2_def)
qed

lemma hexbyte_hex2: "hex2 x = [h, l] \<Longrightarrow> hexbyte h l = x"
  using nibbles_ident [of x]
  by (auto simp: hex2_def hexbyte_def zDigits_nth(2) hi_nibble_less lo_nibble_less)

lemma hex2_hexbyte:
  assumes "xdigit h" "xdigit l"
  shows "hex2 (hexbyte h l) = [hex_lower h, hex_lower l]"
  using assms hexval_lower [of h] hexval_lower [of l]
  by (simp add: hex2_def hexbyte_def hi_nibble_join lo_nibble_join hexval_less)

lemma hexbyte_lower:
  assumes "xdigit h" "xdigit l"
  shows "hexbyte (hex_lower h) (hex_lower l) = hexbyte h l"
  using assms hexval_lower by (simp add: hexbyte_def)

lemma fmt_group_cases:
  obtains h l where "hex2 x = [h, l]" "xdigit h" "xdigit l" "fmt_group i x = [h, l]"
  | h l where "hex2 x = [h, l]" "xdigit h" "xdigit l" "fmt_group i x = [CHR ''-'', h, l]"
proof -
  obtain h l where hl: "hex2 x = [h, l]" by (simp add: hex2_def)
  with hex2_xdigit [of x] have "xdigit h" "xdigit l" by simp_all
  with hl that show ?thesis by (cases "i \<in> {4, 6, 8, 10}") (simp_all only: fmt_group_def if_True if_False append.simps)
qed

lemma fmt_group_is_group: "is_group (fmt_group i x)"
  by (rule fmt_group_cases [of x i]) simp_all

lemma fmt_group_byte: "group_byte (fmt_group i x) = x"
  by (rule fmt_group_cases [of x i]) (simp_all add: hexbyte_hex2)

lemma canonical_text_loose:
  assumes "length b = 16"
  shows "loose (canonical_text b) (map (\<lambda>i. fmt_group i (b ! i)) [0..<16])"
    and "map group_byte (map (\<lambda>i. fmt_group i (b ! i)) [0..<16]) = b"
proof -
  show "loose (canonical_text b) (map (\<lambda>i. fmt_group i (b ! i)) [0..<16])"
    by (rule looseI [of _ "[]" _ "[]"])
      (simp_all add: canonical_text_def list_all_iff fmt_group_is_group)
  have "map group_byte (map (\<lambda>i. fmt_group i (b ! i)) [0..<16]) = map (\<lambda>i. b ! i) [0..<length b]"
    by (simp add: assms fmt_group_byte)
  then show "map group_byte (map (\<lambda>i. fmt_group i (b ! i)) [0..<16]) = b"
    by (simp only: map_nth)
qed

subsection \<open>The canonical text\<close>

lemma hex2_eq: "hex2 x = [zDigits ! unat (drop_bit 4 x), zDigits ! unat (x AND 0xf)]"
  by (simp add: hex2_def)

lemma canonical_text_expand:
  "canonical_text b =
     hex2 (b ! 0) @ hex2 (b ! 1) @ hex2 (b ! 2) @ hex2 (b ! 3) @ [CHR ''-''] @
     hex2 (b ! 4) @ hex2 (b ! 5) @ [CHR ''-''] @
     hex2 (b ! 6) @ hex2 (b ! 7) @ [CHR ''-''] @
     hex2 (b ! 8) @ hex2 (b ! 9) @ [CHR ''-''] @
     hex2 (b ! 10) @ hex2 (b ! 11) @ hex2 (b ! 12) @ hex2 (b ! 13) @ hex2 (b ! 14) @ hex2 (b ! 15)"
  by (simp add: canonical_text_def fmt_group_def eval_nat_numeral)

lemma length_hex2: "length (hex2 x) = 2"
  by (simp add: hex2_def)

lemma length_canonical_text: "length (canonical_text b) = 36"
  by (simp add: canonical_text_expand length_hex2)

lemma hyphen_not_digit: "CHR ''-'' \<notin> set zDigits" "\<not> xdigit CHR ''-''"
  by (simp_all add: zDigits_def xdigit_def isxdigit_def)

lemma canonical_canonical_text: "canonical (canonical_text b)"
proof -
  have d: "zDigits ! unat (drop_bit 4 x) \<in> set zDigits" "zDigits ! unat (x AND 0xf) \<in> set zDigits"
    for x :: byte
    using hex2_in_zDigits [of x] by (simp_all add: hex2_def)
  show ?thesis
    unfolding canonical_def
    by (simp add: canonical_text_expand hex2_eq d upt_conv_Cons)
qed

lemma canonical_text_nth:
  "canonical_text b ! 14 = zDigits ! unat (drop_bit 4 (b ! 6))"
  "canonical_text b ! 19 = zDigits ! unat (drop_bit 4 (b ! 8))"
  by (simp_all add: canonical_text_expand hex2_eq)

lemma filter_xdigit_canonical_text:
  assumes "length b = 16"
  shows "filter xdigit (canonical_text b) = concat (map hex2 b)"
proof -
  have f: "\<And>x. filter xdigit (hex2 x) = hex2 x"
    using hex2_xdigit by (simp add: list_all_iff)
  have "concat (map hex2 b) = concat (map hex2 (map (\<lambda>i. b ! i) [0..<length b]))"
    by (simp only: map_nth)
  also have "\<dots> = filter xdigit (canonical_text b)"
    by (simp add: assms canonical_text_expand f hyphen_not_digit eval_nat_numeral)
  finally show ?thesis by simp
qed

subsection \<open>The normalizer and the SQL functions on accepted and rejected text\<close>

lemma uuid_str_blob:
  assumes "length b = 16"
  shows "sqlite3_uuid_str (SqlBlob b) aBlob = Inr (Some (canonical_text b))"
  by (simp add: sqlite3_uuid_str_def assms blob_to_str_canonical_text length_canonical_text)

lemma loose_length: "loose s gs \<Longrightarrow> length gs = 16"
  by (simp add: loose_def)

lemma text_accepted:
  assumes "loose s gs" "length aBlob = 16"
  shows "sqlite3_uuid_str_to_blob (sqlite3_value_text s) aBlob = Inr (0, map group_byte gs)"
    and "str_to_blob_rc s aBlob = Inr 0"
    and "sqlite3_uuid_input_to_blob (SqlText s) aBlob = Inr (Some (map group_byte gs))"
    and "sqlite3_uuid_str (SqlText s) aBlob = Inr (Some (canonical_text (map group_byte gs)))"
    and "sqlite3_uuid_blob (SqlText s) aBlob = Inr (Some (map group_byte gs))"
proof -
  show p: "sqlite3_uuid_str_to_blob (sqlite3_value_text s) aBlob = Inr (0, map group_byte gs)"
    using parse_complete [OF assms, of "[]"] by (simp add: sqlite3_value_text_def)
  then show "str_to_blob_rc s aBlob = Inr 0"
    by (simp add: str_to_blob_rc_def)
  from p show i: "sqlite3_uuid_input_to_blob (SqlText s) aBlob = Inr (Some (map group_byte gs))"
    by simp
  show "sqlite3_uuid_str (SqlText s) aBlob = Inr (Some (canonical_text (map group_byte gs)))"
    unfolding sqlite3_uuid_str_def i
    by (simp add: blob_to_str_canonical_text loose_length [OF assms(1)] length_canonical_text)
  show "sqlite3_uuid_blob (SqlText s) aBlob = Inr (Some (map group_byte gs))"
    unfolding sqlite3_uuid_blob_def i
    using loose_length [OF assms(1)] by simp
qed

lemma text_rejected:
  assumes "str_to_blob_rc s aBlob = Inr r" "r \<noteq> 0"
  shows "sqlite3_uuid_input_to_blob (SqlText s) aBlob = Inr None"
    and "sqlite3_uuid_str (SqlText s) aBlob = Inr None"
    and "sqlite3_uuid_blob (SqlText s) aBlob = Inr None"
proof -
  from assms show i: "sqlite3_uuid_input_to_blob (SqlText s) aBlob = Inr None"
    by (cases "sqlite3_uuid_str_to_blob (sqlite3_value_text s) aBlob")
      (auto simp: str_to_blob_rc_def)
  show "sqlite3_uuid_str (SqlText s) aBlob = Inr None"
    unfolding sqlite3_uuid_str_def i by simp
  show "sqlite3_uuid_blob (SqlText s) aBlob = Inr None"
    unfolding sqlite3_uuid_blob_def i by simp
qed

lemma rc_cases:
  assumes "length aBlob = 16"
  shows "str_to_blob_rc s aBlob = Inr 0 \<or> str_to_blob_rc s aBlob = Inr 1"
  using parse_total [of "sqlite3_value_text s" aBlob] assms
  by (auto simp: str_to_blob_rc_def sqlite3_value_text_def)

lemma rc_0_iff:
  assumes "NUL \<notin> set s" "length aBlob = 16"
  shows "str_to_blob_rc s aBlob = Inr 0 \<longleftrightarrow> (\<exists>gs. loose s gs)"
proof
  assume "str_to_blob_rc s aBlob = Inr 0"
  then obtain b where "sqlite3_uuid_str_to_blob (s @ [NUL]) aBlob = Inr (0, b)"
    by (cases "sqlite3_uuid_str_to_blob (sqlite3_value_text s) aBlob")
      (auto simp: str_to_blob_rc_def sqlite3_value_text_def)
  then show "\<exists>gs. loose s gs" using parse_iff [OF assms] by blast
next
  assume "\<exists>gs. loose s gs"
  then show "str_to_blob_rc s aBlob = Inr 0" using text_accepted(2) assms(2) by blast
qed

lemma not_loose_rejected:
  assumes "NUL \<notin> set s" "length aBlob = 16" "\<And>gs. \<not> loose s gs"
  shows "str_to_blob_rc s aBlob = Inr 1"
  using rc_cases [OF assms(2), of s] rc_0_iff [OF assms(1,2)] assms(3) by blast

subsection \<open>Version and variant stamps\<close>

lemma stamp_version: "((x::byte) AND 0x0f) + 0x40 = (x AND 0x0f) OR 0x40"
  by (rule disjunctive_add_eq_or) (simp add: and.assoc)

lemma stamp_variant: "((x::byte) AND 0x3f) + 0x80 = (x AND 0x3f) OR 0x80"
  by (rule disjunctive_add_eq_or) (simp add: and.assoc)

lemma version_nibble: "unat (drop_bit 4 (((x::byte) AND 0x0f) + 0x40)) = 4"
proof -
  have "unat (x AND 0xf) = unat x mod 16"
    unfolding m4 take_bit_eq_mask [symmetric] by (simp add: take_bit_eq_mod unat_mod)
  then have "unat ((x AND 0xf) + 0x40) = unat x mod 16 + 64"
    by (simp add: unat_word_ariths)
  then have "unat (drop_bit 4 ((x AND 0xf) + 0x40)) = (unat x mod 16 + 64) div 16"
    by (simp add: drop_bit_eq_div unat_div)
  moreover have "unat x mod 16 < 16" by simp
  ultimately show ?thesis by simp
qed

lemma variant_nibble: "unat (drop_bit 4 (((x::byte) AND 0x3f) + 0x80)) \<in> {8, 9, 10, 11}"
proof -
  have m6: "(0x3f :: byte) = mask 6" by (simp add: mask_eq_exp_minus_1)
  have "unat (x AND 0x3f) = unat x mod 64"
    unfolding m6 take_bit_eq_mask [symmetric] by (simp add: take_bit_eq_mod unat_mod)
  then have "unat ((x AND 0x3f) + 0x80) = unat x mod 64 + 128"
    by (simp add: unat_word_ariths)
  then have "unat (drop_bit 4 ((x AND 0x3f) + 0x80)) = (unat x mod 64 + 128) div 16"
    by (simp add: drop_bit_eq_div unat_div)
  moreover have "unat x mod 64 < 64" by simp
  ultimately show ?thesis by (simp; arith)
qed

lemma sqlite3_uuid_eq:
  assumes "length rnd = 16"
  shows "sqlite3_uuid rnd =
    Inr (canonical_text (rnd[6 := (rnd ! 6 AND 0x0f) + 0x40, 8 := (rnd ! 8 AND 0x3f) + 0x80]))"
  using assms
  by (simp add: sqlite3_uuid_def rd_def Let_def blob_to_str_canonical_text length_canonical_text)

subsection \<open>The text before the first terminator\<close>

lemma split_at_NUL:
  assumes "NUL \<in> set zs"
  shows "\<exists>junk. zs = takeWhile (\<lambda>c. c \<noteq> NUL) zs @ NUL # junk"
  using assms by (induction zs) auto

lemma takeWhile_terminated: "takeWhile (\<lambda>c. c \<noteq> NUL) (t @ [NUL]) = takeWhile (\<lambda>c. c \<noteq> NUL) t"
  by (induction t) auto

lemma unterminated_read_fault:
  "sqlite3_uuid_str_to_blob ''a0-'' (replicate 16 0) = Inl ReadOutOfBounds"
  by (simp add: str_to_blob_Cons loop_unfold xdigit_def isxdigit_def hexbyte_def hexval_def)

lemma input_to_blob_cases:
  assumes "length aBlob = 16"
  shows "sqlite3_uuid_input_to_blob v aBlob = Inr None \<or>
         (\<exists>b. sqlite3_uuid_input_to_blob v aBlob = Inr (Some b) \<and> length b = 16)"
proof (cases v)
  case (SqlText t)
  from parse_total [of "sqlite3_value_text t" aBlob] assms
  obtain r b where "sqlite3_uuid_str_to_blob (sqlite3_value_text t) aBlob = Inr (r, b)"
    "length b = 16"
    by (auto simp: sqlite3_value_text_def)
  then show ?thesis using SqlText by simp
qed simp_all

lemma text_accepted_cstring:
  assumes "str_to_blob_rc t aBlob = Inr 0" "length aBlob = 16"
  shows "\<exists>gs. loose (takeWhile (\<lambda>c. c \<noteq> NUL) t) gs \<and>
              sqlite3_uuid_input_to_blob (SqlText t) aBlob = Inr (Some (map group_byte gs))"
proof -
  from assms(1) obtain b where p: "sqlite3_uuid_str_to_blob (t @ [NUL]) aBlob = Inr (0, b)"
    by (cases "sqlite3_uuid_str_to_blob (sqlite3_value_text t) aBlob")
      (auto simp: str_to_blob_rc_def sqlite3_value_text_def)
  from parse_sound [OF p assms(2)] obtain s gs junk where
    s: "t @ [NUL] = s @ NUL # junk" "loose s gs" "b = map group_byte gs"
    by blast
  have "takeWhile (\<lambda>c. c \<noteq> NUL) (t @ [NUL]) = s"
    unfolding s(1) by (rule takeWhile_NUL [OF loose_no_NUL [OF s(2)]])
  then have "takeWhile (\<lambda>c. c \<noteq> NUL) t = s"
    by (simp only: takeWhile_terminated)
  moreover have "sqlite3_uuid_input_to_blob (SqlText t) aBlob = Inr (Some b)"
    using p by (simp add: sqlite3_value_text_def)
  ultimately show ?thesis using s(2,3) by blast
qed

subsection \<open>Consecutive hyphens\<close>

lemma double_hyphen_skip:
  assumes "c \<noteq> CHR ''-''"
  shows "double_hyphen (c # x) = double_hyphen x"
  using assms by (cases x) simp_all

lemma double_hyphen_append: "double_hyphen (u @ CHR ''-'' # CHR ''-'' # v)"
  by (induction u rule: double_hyphen.induct) simp_all

lemma double_hyphen_group:
  assumes "is_group g"
  shows "double_hyphen (g @ r) = double_hyphen r"
proof (rule is_group_cases [OF assms])
  fix h l assume "xdigit h" "xdigit l" "g = [h, l]"
  then show ?thesis
    using xdigit_not_special(1) by (simp add: double_hyphen_skip)
next
  fix h l assume "xdigit h" "xdigit l" "g = [CHR ''-'', h, l]"
  then show ?thesis
    using xdigit_not_special(1) by (simp add: double_hyphen_skip)
qed

lemma double_hyphen_groups:
  assumes "list_all is_group gs"
  shows "double_hyphen (concat gs @ r) = double_hyphen r"
  using assms by (induction gs) (simp_all add: double_hyphen_group)

lemma loose_no_double_hyphen:
  assumes "loose s gs"
  shows "\<not> double_hyphen s"
proof -
  from assms obtain ob cb where s: "s = ob @ concat gs @ cb"
    and ob: "ob = [] \<or> ob = [CHR ''{'']" and cb: "cb = [] \<or> cb = [CHR ''}'']"
    and gs: "list_all is_group gs"
    by (rule looseE)
  have "\<not> double_hyphen cb" using cb by auto
  then have "\<not> double_hyphen (concat gs @ cb)" by (simp add: double_hyphen_groups [OF gs])
  then show ?thesis using ob by (auto simp: s double_hyphen_skip)
qed

subsection \<open>Counting digits, and rejection by the loop\<close>

lemma group_hexcount:
  assumes "is_group g"
  shows "length (filter xdigit g) = 2"
  by (rule is_group_cases [OF assms]) (simp_all add: hyphen_not_digit)

lemma groups_hexcount:
  assumes "list_all is_group gs"
  shows "length (filter xdigit (concat gs)) = 2 * length gs"
  using assms by (induction gs) (simp_all add: group_hexcount)

lemma brace_not_digit: "\<not> xdigit CHR ''{''" "\<not> xdigit CHR ''}''"
  by (simp_all add: xdigit_def isxdigit_def)

lemma loose_hexcount:
  assumes "loose s gs"
  shows "length (filter xdigit s) = 32"
proof -
  from assms obtain ob cb where s: "s = ob @ concat gs @ cb"
    and ob: "ob = [] \<or> ob = [CHR ''{'']" and cb: "cb = [] \<or> cb = [CHR ''}'']"
    and gs: "length gs = 16" "list_all is_group gs"
    by (rule looseE)
  from ob cb have "filter xdigit ob = []" "filter xdigit cb = []"
    by (auto simp: brace_not_digit)
  then show ?thesis by (simp add: s groups_hexcount [OF gs(2)] gs(1))
qed

lemma loop_prefix:
  assumes "list_all is_group gs" "i + length gs \<le> 16" "length a = 16"
  shows "\<exists>a'. length a' = 16 \<and>
    str_to_blob_loop i (concat gs @ rest) a = str_to_blob_loop (i + length gs) rest a'"
  using assms
proof (induction gs arbitrary: i a)
  case Nil
  then show ?case by (intro exI [of _ a]) simp
next
  case (Cons g gs)
  then have i: "i < 16" "i < length a" and g: "is_group g" by simp_all
  have "str_to_blob_loop i (concat (g # gs) @ rest) a =
        str_to_blob_loop (Suc i) (concat gs @ rest) (a[i := group_byte g])"
    using i by (simp add: loop_unfold step_group [OF g])
  moreover from Cons.IH [of "Suc i" "a[i := group_byte g]"] Cons.prems
  obtain a' where "length a' = 16"
    "str_to_blob_loop (Suc i) (concat gs @ rest) (a[i := group_byte g]) =
     str_to_blob_loop (Suc i + length gs) rest a'"
    by auto
  ultimately show ?case by auto
qed

lemma step_None:
  assumes "hy = [] \<or> hy = [CHR ''-'']" "hy = [] \<longrightarrow> take 1 x \<noteq> [CHR ''-'']"
    "\<exists>c \<in> set (take 2 x). \<not> xdigit c"
  shows "step (hy @ x @ r) = Inr None"
proof -
  from assms(3) obtain c t where x: "x = c # t" by (cases x) auto
  have p: "pair_at (c # t @ r) = Inr None"
  proof (cases "xdigit c")
    case False
    then show ?thesis by (rule pair_at_nonhex)
  next
    case True
    with assms(3) x obtain d t' where "t = d # t'" "\<not> xdigit d" by (cases t) auto
    then show ?thesis by simp
  qed
  from assms(1) show ?thesis
  proof
    assume "hy = []"
    with assms(2) x have "c \<noteq> CHR ''-''" by simp
    with p show ?thesis by (simp add: x \<open>hy = []\<close>)
  next
    assume "hy = [CHR ''-'']"
    with p show ?thesis by (simp add: x)
  qed
qed

lemma reject_at_required:
  assumes "list_all is_group gs" "length gs < 16" "length a = 16"
    and "ob = [] \<or> ob = [CHR ''{'']" "ob = [] \<longrightarrow> take 1 s \<noteq> [CHR ''{'']"
    and "hy = [] \<or> hy = [CHR ''-'']" "hy = [] \<longrightarrow> take 1 x \<noteq> [CHR ''-'']"
    and "\<exists>c \<in> set (take 2 x). \<not> xdigit c"
    and s: "s = ob @ concat gs @ hy @ x"
  shows "str_to_blob_rc s a = Inr 1"
proof -
  define y where "y = concat gs @ hy @ x @ [NUL]"
  from loop_prefix [OF assms(1), of 0 a "hy @ x @ [NUL]"] assms(2,3)
  obtain a' where a': "length a' = 16"
    "str_to_blob_loop 0 y a = str_to_blob_loop (length gs) (hy @ x @ [NUL]) a'"
    by (auto simp: y_def)
  have lp: "str_to_blob_loop 0 y a = Inr (Return 1 a')"
    unfolding a'(2) using assms(2) step_None [OF assms(6,7,8), of "[NUL]"]
    by (simp add: loop_unfold)
  have "x \<noteq> []" using assms(8) by auto
  have "\<exists>c t. s @ [NUL] = c # t \<and> (if c = CHR ''{'' then t else c # t) = y"
    using assms(4)
  proof
    assume ob: "ob = []"
    from s \<open>x \<noteq> []\<close> have "s \<noteq> []" by simp
    then obtain c t0 where c: "s = c # t0" by (meson neq_Nil_conv)
    with assms(5) ob have "c \<noteq> CHR ''{''" by simp
    with c ob s show ?thesis by (simp add: y_def)
  next
    assume "ob = [CHR ''{'']"
    with s show ?thesis by (simp add: y_def)
  qed
  then obtain c t where ct: "s @ [NUL] = c # t" "(if c = CHR ''{'' then t else c # t) = y"
    by blast
  have "sqlite3_uuid_str_to_blob (s @ [NUL]) a = Inr (1, a')"
    unfolding ct(1) str_to_blob_Cons ct(2) lp by simp
  then show ?thesis by (simp add: str_to_blob_rc_def sqlite3_value_text_def)
qed

lemma reject_trailing:
  assumes "list_all is_group gs" "length gs = 16" "length a = 16"
    and "ob = [] \<or> ob = [CHR ''{'']" "cb = [] \<or> cb = [CHR ''}'']"
    and "t \<noteq> []" "cb = [] \<longrightarrow> take 1 t \<noteq> [CHR ''}'']" "NUL \<notin> set t"
  shows "str_to_blob_rc (ob @ concat gs @ cb @ t) a = Inr 1"
proof -
  from assms(6) obtain c t' where t: "t = c # t'" by (cases t) auto
  with assms(8) have c: "c \<noteq> NUL" by auto
  have "finish (cb @ t @ [NUL]) (map group_byte gs) = Inr (1, map group_byte gs)"
    using assms(5,7) c by (auto simp: finish_def t)
  with parse_groups [OF assms(1,2,3,4), of "cb @ t @ [NUL]"] show ?thesis
    by (simp add: str_to_blob_rc_def sqlite3_value_text_def)
qed

subsection \<open>The bytes as a function of the digits\<close>

lemma group_digits:
  assumes "is_group g"
  obtains h l where "xdigit h" "xdigit l" "filter xdigit g = [h, l]" "group_byte g = hexbyte h l"
  by (rule is_group_cases [OF assms]) (simp_all add: hyphen_not_digit)

lemma group_byte_pairs:
  assumes "list_all is_group gs"
  shows "map group_byte gs = hex_pairs (filter xdigit (concat gs))"
  using assms
proof (induction gs)
  case Nil
  then show ?case by simp
next
  case (Cons g gs)
  then have "is_group g" by simp
  then obtain h l where "filter xdigit g = [h, l]" "group_byte g = hexbyte h l"
    by (rule group_digits)
  with Cons show ?case by simp
qed

lemma hex_pairs_lower:
  assumes "list_all xdigit ds"
  shows "hex_pairs (map hex_lower ds) = hex_pairs ds"
  using assms by (induction ds rule: hex_pairs.induct) (simp_all add: hexbyte_lower)

lemma loose_digits:
  assumes "loose s gs"
  shows "filter xdigit s = filter xdigit (concat gs)"
proof -
  from assms obtain ob cb where s: "s = ob @ concat gs @ cb"
    and ob: "ob = [] \<or> ob = [CHR ''{'']" and cb: "cb = [] \<or> cb = [CHR ''}'']"
    by (rule looseE)
  from ob cb have "filter xdigit ob = []" "filter xdigit cb = []"
    by (auto simp: brace_not_digit)
  then show ?thesis by (simp add: s)
qed

lemma loose_bytes:
  assumes "loose s gs"
  shows "map group_byte gs = hex_pairs (map hex_lower (filter xdigit s))"
proof -
  from assms have gs: "list_all is_group gs" by (rule looseE)
  have "list_all xdigit (filter xdigit s)" by (simp add: list_all_iff)
  then show ?thesis
    by (simp only: hex_pairs_lower loose_digits [OF assms] group_byte_pairs [OF gs])
qed

lemma hex2_group_byte:
  assumes "is_group g"
  shows "hex2 (group_byte g) = map hex_lower (filter xdigit g)"
proof -
  from assms obtain h l where "xdigit h" "xdigit l" "filter xdigit g = [h, l]"
    "group_byte g = hexbyte h l"
    by (rule group_digits)
  then show ?thesis by (simp add: hex2_hexbyte)
qed

lemma canonical_digits:
  assumes "loose s gs"
  shows "filter xdigit (canonical_text (map group_byte gs)) = map hex_lower (filter xdigit s)"
proof -
  from assms have gs: "list_all is_group gs" "length gs = 16"
    unfolding loose_def by simp_all
  have "map hex2 (map group_byte gs) = map (\<lambda>g. map hex_lower (filter xdigit g)) gs"
    using gs(1) by (simp add: list_all_iff hex2_group_byte)
  moreover have "concat (map (\<lambda>g. map hex_lower (filter xdigit g)) gs) =
      map hex_lower (filter xdigit (concat gs))"
    by (induction gs) simp_all
  ultimately have "concat (map hex2 (map group_byte gs)) = map hex_lower (filter xdigit (concat gs))"
    by (simp only:)
  moreover have "filter xdigit (canonical_text (map group_byte gs)) =
      concat (map hex2 (map group_byte gs))"
    by (rule filter_xdigit_canonical_text) (simp add: gs(2))
  ultimately show ?thesis
    by (simp only: loose_digits [OF assms])
qed

lemma rc_cstring:
  "str_to_blob_rc t a = str_to_blob_rc (takeWhile (\<lambda>c. c \<noteq> NUL) t) a"
proof -
  have n: "NUL \<in> set (t @ [NUL])" by simp
  from split_at_NUL [OF n] obtain junk where
    j: "t @ [NUL] = (takeWhile (\<lambda>c. c \<noteq> NUL) t @ [NUL]) @ junk"
    by (auto simp: takeWhile_terminated)
  have "sqlite3_uuid_str_to_blob ((takeWhile (\<lambda>c. c \<noteq> NUL) t @ [NUL]) @ junk) a =
      sqlite3_uuid_str_to_blob (takeWhile (\<lambda>c. c \<noteq> NUL) t @ [NUL]) a"
    by (rule parse_junk(1)) simp
  then show ?thesis
    by (simp only: str_to_blob_rc_def sqlite3_value_text_def j)
qed

lemma input_to_blob_buffer:
  assumes "length a = 16" "length a' = 16"
  shows "sqlite3_uuid_input_to_blob v a = sqlite3_uuid_input_to_blob v a'"
proof (cases v)
  case (SqlText t)
  let ?s = "takeWhile (\<lambda>c. c \<noteq> NUL) t"
  have s: "NUL \<notin> set ?s" by (auto dest: set_takeWhileD)
  show ?thesis
  proof (cases "str_to_blob_rc t a = Inr 0")
    case True
    then have "str_to_blob_rc t a' = Inr 0"
      using rc_0_iff [OF s assms(1)] rc_0_iff [OF s assms(2)] rc_cstring [of t] by simp
    from text_accepted_cstring [OF True assms(1)] text_accepted_cstring [OF this assms(2)]
    obtain gs gs' where "loose ?s gs" "loose ?s gs'"
      "sqlite3_uuid_input_to_blob (SqlText t) a = Inr (Some (map group_byte gs))"
      "sqlite3_uuid_input_to_blob (SqlText t) a' = Inr (Some (map group_byte gs'))"
      by blast
    then show ?thesis
      by (simp only: SqlText loose_bytes)
  next
    case False
    then have "str_to_blob_rc t a' \<noteq> Inr 0"
      using rc_0_iff [OF s assms(1)] rc_0_iff [OF s assms(2)] rc_cstring [of t] by simp
    with False rc_cases [OF assms(1), of t] rc_cases [OF assms(2), of t]
    have "str_to_blob_rc t a = Inr 1" "str_to_blob_rc t a' = Inr 1" by blast+
    then show ?thesis
      using text_rejected(1) [of t a 1] text_rejected(1) [of t a' 1] by (simp add: SqlText)
  qed
qed simp_all

section \<open>The claims\<close>

text \<open>
  Claim C1. Bytes to text to bytes is the identity: for every 16-byte blob \<open>b\<close> the string
  written by \<^verbatim>\<open>sqlite3_uuid_blob_to_str\<close> is parsed by \<^verbatim>\<open>sqlite3_uuid_str_to_blob\<close> with
  return value 0 and leaves exactly \<open>b\<close> in the output buffer, whatever the buffer held
  before; likewise \<^verbatim>\<open>uuid_blob(uuid_str(b))\<close> is \<open>b\<close>.
\<close>

theorem round_trip:
  assumes "length b = 16" "length aBlob = 16"
  shows "(\<exists>zStr. sqlite3_uuid_blob_to_str b = Inr zStr \<and>
                sqlite3_uuid_str_to_blob zStr aBlob = Inr (0, b)) \<and>
         (\<exists>u. sqlite3_uuid_str (SqlBlob b) aBlob = Inr (Some u) \<and>
              sqlite3_uuid_blob (SqlText u) aBlob = Inr (Some b))"
proof -
  note l = canonical_text_loose [OF assms(1)]
  have "sqlite3_uuid_str_to_blob (canonical_text b @ [NUL]) aBlob = Inr (0, b)"
    using text_accepted(1) [OF l(1) assms(2)] l(2) by (simp add: sqlite3_value_text_def)
  then have "\<exists>zStr. sqlite3_uuid_blob_to_str b = Inr zStr \<and>
                sqlite3_uuid_str_to_blob zStr aBlob = Inr (0, b)"
    by (simp add: blob_to_str_canonical_text [OF assms(1)])
  moreover have "\<exists>u. sqlite3_uuid_str (SqlBlob b) aBlob = Inr (Some u) \<and>
             sqlite3_uuid_blob (SqlText u) aBlob = Inr (Some b)"
    using text_accepted(5) [OF l(1) assms(2)] l(2) by (simp add: uuid_str_blob [OF assms(1)])
  ultimately show ?thesis by blast
qed

theorem round_trip_witness:
  "(\<exists>zStr. sqlite3_uuid_blob_to_str
       [0x00, 0x11, 0x22, 0x33, 0x44, 0x55, 0x66, 0x77, 0x88, 0x99, 0xaa, 0xbb, 0xcc, 0xdd,
        0xee, 0xff] = Inr zStr \<and>
     sqlite3_uuid_str_to_blob zStr (replicate 16 0x5a) =
       Inr (0, [0x00, 0x11, 0x22, 0x33, 0x44, 0x55, 0x66, 0x77, 0x88, 0x99, 0xaa, 0xbb,
                0xcc, 0xdd, 0xee, 0xff])) \<and>
   (\<exists>u. sqlite3_uuid_str (SqlBlob
       [0x00, 0x11, 0x22, 0x33, 0x44, 0x55, 0x66, 0x77, 0x88, 0x99, 0xaa, 0xbb, 0xcc, 0xdd,
        0xee, 0xff]) (replicate 16 0x5a) = Inr (Some u) \<and>
     sqlite3_uuid_blob (SqlText u) (replicate 16 0x5a) =
       Inr (Some [0x00, 0x11, 0x22, 0x33, 0x44, 0x55, 0x66, 0x77, 0x88, 0x99, 0xaa, 0xbb,
                  0xcc, 0xdd, 0xee, 0xff]))"
  by (rule round_trip) simp_all

text \<open>
  Claim C2. For every 16-byte random fill \<open>rnd\<close>, \<^verbatim>\<open>uuid4()\<close> returns without fault a text of
  the canonical shape (36 characters, hyphens at offsets 8, 13, 18 and 23, lower-case
  hexadecimal digits elsewhere). Its character 14, the first digit of byte 6, is \<open>4\<close>; its
  character 19, the first digit of byte 8, is one of \<open>8 9 a b\<close>. The text is the canonical
  text of \<open>rnd\<close> with byte 6 replaced by \<open>(b6 & 0x0f) | 0x40\<close> and byte 8 by
  \<open>(b8 & 0x3f) | 0x80\<close>: the additions of the C code equal these disjunctions.
\<close>

theorem generate_valid:
  assumes "length rnd = 16"
  shows "\<exists>u. sqlite3_uuid rnd = Inr u \<and> canonical u \<and>
              u ! 14 = CHR ''4'' \<and>
              u ! 19 \<in> {CHR ''8'', CHR ''9'', CHR ''a'', CHR ''b''} \<and>
              u = canonical_text
                    (rnd[6 := (rnd ! 6 AND 0x0f) OR 0x40, 8 := (rnd ! 8 AND 0x3f) OR 0x80])"
proof -
  define b where "b = rnd[6 := (rnd ! 6 AND 0x0f) + 0x40, 8 := (rnd ! 8 AND 0x3f) + 0x80]"
  have u: "sqlite3_uuid rnd = Inr (canonical_text b)"
    unfolding b_def by (rule sqlite3_uuid_eq [OF assms])
  have b6: "b ! 6 = (rnd ! 6 AND 0x0f) + 0x40" and b8: "b ! 8 = (rnd ! 8 AND 0x3f) + 0x80"
    using assms by (simp_all add: b_def)
  have "canonical_text b ! 14 = zDigits ! 4"
    by (simp add: canonical_text_nth b6 version_nibble)
  then have v: "canonical_text b ! 14 = CHR ''4''"
    by (simp add: zDigits_def)
  have "canonical_text b ! 19 \<in> {zDigits ! 8, zDigits ! 9, zDigits ! 10, zDigits ! 11}"
    using variant_nibble [of "rnd ! 8"] by (auto simp: canonical_text_nth b8)
  then have w: "canonical_text b ! 19 \<in> {CHR ''8'', CHR ''9'', CHR ''a'', CHR ''b''}"
    by (simp add: zDigits_def)
  have e: "canonical_text b = canonical_text
      (rnd[6 := (rnd ! 6 AND 0x0f) OR 0x40, 8 := (rnd ! 8 AND 0x3f) OR 0x80])"
    by (simp only: b_def stamp_version stamp_variant)
  from u v w e canonical_canonical_text [of b] show ?thesis by blast
qed

theorem generate_valid_witness:
  "sqlite3_uuid (replicate 16 0xff) = Inr ''ffffffff-ffff-4fff-bfff-ffffffffffff'' \<and>
   canonical ''ffffffff-ffff-4fff-bfff-ffffffffffff''"
proof -
  let ?r = "replicate 16 0xff :: byte list"
  have l: "length ?r = 16" by simp
  from generate_valid [OF l] obtain u where u: "sqlite3_uuid ?r = Inr u" "canonical u"
    "u = canonical_text (?r[6 := (?r ! 6 AND 0x0f) OR 0x40, 8 := (?r ! 8 AND 0x3f) OR 0x80])"
    by blast
  have "canonical_text (?r[6 := (?r ! 6 AND 0x0f) OR 0x40, 8 := (?r ! 8 AND 0x3f) OR 0x80]) =
      ''ffffffff-ffff-4fff-bfff-ffffffffffff''"
    by code_simp
  with u show ?thesis by simp
qed

text \<open>
  Claim C3. Let \<open>s\<close> be a text without embedded terminator and \<open>rc\<close> the value returned by
  \<^verbatim>\<open>sqlite3_uuid_str_to_blob\<close> on it; \<open>rc\<close> is 0 or 1, and on 1 the normalizer returns the null
  pointer. The parser returns 1
  \<^item> when \<open>s\<close> holds fewer than 32 hexadecimal digits, and when it holds more than 32;
  \<^item> when a character that is not a hexadecimal digit stands where a digit is required: after
    the optional opening brace, fewer than 16 byte groups and the optional hyphen of the next
    group, one of the next two characters is not a digit;
  \<^item> when anything follows the 16th byte group and the optional closing brace.

  It returns 0 exactly when \<open>s\<close> is an optional opening brace, 16 byte groups and an optional
  closing brace, with nothing behind.
\<close>

theorem rejection:
  assumes "NUL \<notin> set s" "length aBlob = 16"
  shows "(length (filter xdigit s) < 32 \<longrightarrow> str_to_blob_rc s aBlob = Inr 1) \<and>
         (length (filter xdigit s) > 32 \<longrightarrow> str_to_blob_rc s aBlob = Inr 1) \<and>
         (\<forall>ob gs hy x.
            s = ob @ concat gs @ hy @ x \<and> (ob = [] \<or> ob = ''{'') \<and>
            (ob = [] \<longrightarrow> take 1 s \<noteq> ''{'') \<and> list_all is_group gs \<and> length gs < 16 \<and>
            (hy = [] \<or> hy = ''-'') \<and> (hy = [] \<longrightarrow> take 1 x \<noteq> ''-'') \<and>
            (\<exists>c \<in> set (take 2 x). \<not> xdigit c)
            \<longrightarrow> str_to_blob_rc s aBlob = Inr 1) \<and>
         (\<forall>ob gs cb t.
            s = ob @ concat gs @ cb @ t \<and> (ob = [] \<or> ob = ''{'') \<and> (cb = [] \<or> cb = ''}'') \<and>
            list_all is_group gs \<and> length gs = 16 \<and> t \<noteq> [] \<and> (cb = [] \<longrightarrow> take 1 t \<noteq> ''}'')
            \<longrightarrow> str_to_blob_rc s aBlob = Inr 1) \<and>
         (str_to_blob_rc s aBlob = Inr 0 \<longleftrightarrow> (\<exists>gs. loose s gs)) \<and>
         (str_to_blob_rc s aBlob = Inr 0 \<or> str_to_blob_rc s aBlob = Inr 1) \<and>
         (str_to_blob_rc s aBlob = Inr 1 \<longrightarrow>
            sqlite3_uuid_input_to_blob (SqlText s) aBlob = Inr None)"
proof -
  have n: "str_to_blob_rc s aBlob = Inr 1" if "length (filter xdigit s) \<noteq> 32"
  proof (rule not_loose_rejected [OF assms])
    fix gs show "\<not> loose s gs" using loose_hexcount [of s gs] that by auto
  qed
  have 1: "length (filter xdigit s) < 32 \<longrightarrow> str_to_blob_rc s aBlob = Inr 1"
    and 2: "length (filter xdigit s) > 32 \<longrightarrow> str_to_blob_rc s aBlob = Inr 1"
    using n by simp_all
  have 3: "\<forall>ob gs hy x.
            s = ob @ concat gs @ hy @ x \<and> (ob = [] \<or> ob = ''{'') \<and>
            (ob = [] \<longrightarrow> take 1 s \<noteq> ''{'') \<and> list_all is_group gs \<and> length gs < 16 \<and>
            (hy = [] \<or> hy = ''-'') \<and> (hy = [] \<longrightarrow> take 1 x \<noteq> ''-'') \<and>
            (\<exists>c \<in> set (take 2 x). \<not> xdigit c)
            \<longrightarrow> str_to_blob_rc s aBlob = Inr 1"
    using reject_at_required [OF _ _ assms(2), of _ _ s] by blast
  have 4: "\<forall>ob gs cb t.
            s = ob @ concat gs @ cb @ t \<and> (ob = [] \<or> ob = ''{'') \<and> (cb = [] \<or> cb = ''}'') \<and>
            list_all is_group gs \<and> length gs = 16 \<and> t \<noteq> [] \<and> (cb = [] \<longrightarrow> take 1 t \<noteq> ''}'')
            \<longrightarrow> str_to_blob_rc s aBlob = Inr 1"
  proof (intro allI impI)
    fix ob gs cb t
    assume a: "s = ob @ concat gs @ cb @ t \<and> (ob = [] \<or> ob = ''{'') \<and> (cb = [] \<or> cb = ''}'') \<and>
            list_all is_group gs \<and> length gs = 16 \<and> t \<noteq> [] \<and> (cb = [] \<longrightarrow> take 1 t \<noteq> ''}'')"
    with assms(1) have "NUL \<notin> set t" by auto
    with a reject_trailing [of gs aBlob ob cb t] assms(2)
    show "str_to_blob_rc s aBlob = Inr 1" by blast
  qed
  note 5 = rc_0_iff [OF assms]
  note 6 = rc_cases [OF assms(2), of s]
  have 7: "str_to_blob_rc s aBlob = Inr 1 \<longrightarrow>
            sqlite3_uuid_input_to_blob (SqlText s) aBlob = Inr None"
    using text_rejected(1) [of s aBlob 1] by simp
  show ?thesis by (intro conjI) (fact 1 2 3 4 5 6 7)+
qed

theorem rejection_witness:
  "str_to_blob_rc ''not-a-uuid'' (replicate 16 0) = Inr 1 \<and>
   str_to_blob_rc ''a0eebc999c0b4ef8bb6d6bb9bd380a11ff'' (replicate 16 0) = Inr 1 \<and>
   str_to_blob_rc ''a0eebc99-9c0b-4ef8-bb6d-6bb9bd380a1-1'' (replicate 16 0) = Inr 1 \<and>
   str_to_blob_rc ''{a0eebc999c0b4ef8bb6d6bb9bd380a11}}'' (replicate 16 0) = Inr 1 \<and>
   sqlite3_uuid_input_to_blob (SqlText ''not-a-uuid'') (replicate 16 0) = Inr None"
proof -
  have l: "length (replicate 16 (0::byte)) = 16" by simp
  have n: "NUL \<notin> set ''not-a-uuid''" "NUL \<notin> set ''a0eebc999c0b4ef8bb6d6bb9bd380a11ff''"
    "NUL \<notin> set ''a0eebc99-9c0b-4ef8-bb6d-6bb9bd380a1-1''"
    "NUL \<notin> set ''{a0eebc999c0b4ef8bb6d6bb9bd380a11}}''"
    by (simp_all add: NUL_def)
  have "length (filter xdigit ''not-a-uuid'') < 32"
    by (simp add: xdigit_def isxdigit_def)
  with rejection [OF n(1) l] have 1: "str_to_blob_rc ''not-a-uuid'' (replicate 16 0) = Inr 1"
    and 5: "sqlite3_uuid_input_to_blob (SqlText ''not-a-uuid'') (replicate 16 0) = Inr None"
    by blast+
  have "length (filter xdigit ''a0eebc999c0b4ef8bb6d6bb9bd380a11ff'') > 32"
    by (simp add: xdigit_def isxdigit_def)
  with rejection [OF n(2) l]
  have 2: "str_to_blob_rc ''a0eebc999c0b4ef8bb6d6bb9bd380a11ff'' (replicate 16 0) = Inr 1"
    by blast
  let ?g15 = "[''a0'', ''ee'', ''bc'', ''99'', ''-9c'', ''0b'', ''-4e'', ''f8'', ''-bb'', ''6d'',
    ''-6b'', ''b9'', ''bd'', ''38'', ''0a'']"
  have "''a0eebc99-9c0b-4ef8-bb6d-6bb9bd380a1-1'' = [] @ concat ?g15 @ [] @ ''1-1'' \<and>
      ([] = [] \<or> [] = ''{'') \<and>
      ([] = [] \<longrightarrow> take 1 ''a0eebc99-9c0b-4ef8-bb6d-6bb9bd380a1-1'' \<noteq> ''{'') \<and>
      list_all is_group ?g15 \<and> length ?g15 < 16 \<and>
      ([] = [] \<or> [] = ''-'') \<and> ([] = [] \<longrightarrow> take 1 ''1-1'' \<noteq> ''-'') \<and>
      (\<exists>c \<in> set (take 2 ''1-1''). \<not> xdigit c)"
    by (simp add: xdigit_def isxdigit_def)
  with rejection [OF n(3) l]
  have 3: "str_to_blob_rc ''a0eebc99-9c0b-4ef8-bb6d-6bb9bd380a1-1'' (replicate 16 0) = Inr 1"
    by blast
  let ?g16 = "[''a0'', ''ee'', ''bc'', ''99'', ''9c'', ''0b'', ''4e'', ''f8'', ''bb'', ''6d'',
    ''6b'', ''b9'', ''bd'', ''38'', ''0a'', ''11'']"
  have "''{a0eebc999c0b4ef8bb6d6bb9bd380a11}}'' = ''{'' @ concat ?g16 @ ''}'' @ ''}'' \<and>
      (''{'' = [] \<or> ''{'' = ''{'') \<and> (''}'' = [] \<or> ''}'' = ''}'') \<and>
      list_all is_group ?g16 \<and> length ?g16 = 16 \<and> ''}'' \<noteq> [] \<and>
      (''}'' = [] \<longrightarrow> take 1 ''}'' \<noteq> ''}'')"
    by (simp add: xdigit_def isxdigit_def)
  with rejection [OF n(4) l]
  have 4: "str_to_blob_rc ''{a0eebc999c0b4ef8bb6d6bb9bd380a11}}'' (replicate 16 0) = Inr 1"
    by blast
  from 1 2 3 4 5 show ?thesis by (intro conjI)
qed

text \<open>
  Claim C4. Two accepted loose texts that denote the same UUID, that is, whose hexadecimal
  digits agree up to case (an accepted text holds nothing but digits, braces and hyphens),
  are rendered by \<^verbatim>\<open>uuid_str\<close> to the same text. That text has the canonical shape and its
  digits are the lower-case digits of the input. In particular
  \<open>{a0eebc99-9c0b4ef8-bb6d6bb9-bd380a11}\<close> is rendered to
  \<open>a0eebc99-9c0b-4ef8-bb6d-6bb9bd380a11\<close>.
\<close>

theorem canonicalization:
  assumes "NUL \<notin> set s1" "NUL \<notin> set s2" "length aBlob = 16" "length aBlob' = 16"
    and "str_to_blob_rc s1 aBlob = Inr 0" "str_to_blob_rc s2 aBlob' = Inr 0"
    and "map hex_lower (filter xdigit s1) = map hex_lower (filter xdigit s2)"
  shows "(\<exists>u. sqlite3_uuid_str (SqlText s1) aBlob = Inr (Some u) \<and>
              sqlite3_uuid_str (SqlText s2) aBlob' = Inr (Some u) \<and>
              canonical u \<and> filter xdigit u = map hex_lower (filter xdigit s1)) \<and>
         sqlite3_uuid_str (SqlText ''{a0eebc99-9c0b4ef8-bb6d6bb9-bd380a11}'') aBlob =
           Inr (Some ''a0eebc99-9c0b-4ef8-bb6d-6bb9bd380a11'')"
proof -
  from assms(5) rc_0_iff [OF assms(1,3)] obtain gs1 where g1: "loose s1 gs1" by blast
  from assms(6) rc_0_iff [OF assms(2,4)] obtain gs2 where g2: "loose s2 gs2" by blast
  have "map group_byte gs1 = map group_byte gs2"
    by (simp only: loose_bytes [OF g1] loose_bytes [OF g2] assms(7))
  with text_accepted(4) [OF g1 assms(3)] text_accepted(4) [OF g2 assms(4)]
    canonical_canonical_text [of "map group_byte gs1"] canonical_digits [OF g1]
  have "\<exists>u. sqlite3_uuid_str (SqlText s1) aBlob = Inr (Some u) \<and>
              sqlite3_uuid_str (SqlText s2) aBlob' = Inr (Some u) \<and>
              canonical u \<and> filter xdigit u = map hex_lower (filter xdigit s1)"
    by simp
  moreover
  let ?gs = "[''a0'', ''ee'', ''bc'', ''99'', ''-9c'', ''0b'', ''4e'', ''f8'', ''-bb'', ''6d'', ''6b'',
    ''b9'', ''-bd'', ''38'', ''0a'', ''11'']"
  have "loose ''{a0eebc99-9c0b4ef8-bb6d6bb9-bd380a11}'' ?gs"
    by (rule looseI [of _ "''{''" _ "''}''"]) (simp_all add: xdigit_def isxdigit_def)
  from text_accepted(4) [OF this assms(3)]
  have "sqlite3_uuid_str (SqlText ''{a0eebc99-9c0b4ef8-bb6d6bb9-bd380a11}'') aBlob =
           Inr (Some ''a0eebc99-9c0b-4ef8-bb6d-6bb9bd380a11'')"
    by (simp add: canonical_text_expand hex2_eq zDigits_def hexbyte_def hexval_def)
  ultimately show ?thesis by blast
qed

theorem canonicalization_witness:
  "(\<exists>u. sqlite3_uuid_str (SqlText ''A0EEBC99-9C0B-4EF8-BB6D-6BB9BD380A11'') (replicate 16 0)
           = Inr (Some u) \<and>
        sqlite3_uuid_str (SqlText ''{a0ee-bc99-9c0b-4ef8-bb6d-6bb9-bd38-0a11}'') (replicate 16 1)
           = Inr (Some u) \<and>
        canonical u \<and>
        filter xdigit u = map hex_lower (filter xdigit ''A0EEBC99-9C0B-4EF8-BB6D-6BB9BD380A11'')) \<and>
   sqlite3_uuid_str (SqlText ''{a0eebc99-9c0b4ef8-bb6d6bb9-bd380a11}'') (replicate 16 0) =
     Inr (Some ''a0eebc99-9c0b-4ef8-bb6d-6bb9bd380a11'')"
proof -
  have n: "NUL \<notin> set ''A0EEBC99-9C0B-4EF8-BB6D-6BB9BD380A11''"
    "NUL \<notin> set ''{a0ee-bc99-9c0b-4ef8-bb6d-6bb9-bd38-0a11}''"
    by (simp_all add: NUL_def)
  have l: "length (replicate 16 (0::byte)) = 16" "length (replicate 16 (1::byte)) = 16"
    by simp_all
  have r: "str_to_blob_rc ''A0EEBC99-9C0B-4EF8-BB6D-6BB9BD380A11'' (replicate 16 0) = Inr 0"
    "str_to_blob_rc ''{a0ee-bc99-9c0b-4ef8-bb6d-6bb9-bd38-0a11}'' (replicate 16 1) = Inr 0"
    by code_simp+
  have d: "map hex_lower (filter xdigit ''A0EEBC99-9C0B-4EF8-BB6D-6BB9BD380A11'') =
      map hex_lower (filter xdigit ''{a0ee-bc99-9c0b-4ef8-bb6d-6bb9-bd38-0a11}'')"
    by (simp add: xdigit_def isxdigit_def hex_lower_def)
  show ?thesis
    by (rule canonicalization [OF n l r d])
qed

text \<open>
  Claim C5. For every 16-byte blob the formatter \<^verbatim>\<open>sqlite3_uuid_blob_to_str\<close> returns
  without fault and writes 36 characters followed by the terminator. The characters are, for
  the source bytes 0 to 15 in order, a hyphen exactly when the index is 4, 6, 8 or 10 and then
  the two digits \<open>zDigits[x >> 4]\<close>, \<open>zDigits[x & 0xf]\<close> (high nibble first) taken from the
  lower-case table. The text has the canonical shape, does not end in a hyphen, and is what
  \<^verbatim>\<open>uuid_str\<close> hands out for a blob argument.
\<close>

theorem formatter_canonical:
  assumes "length b = 16"
  shows "sqlite3_uuid_blob_to_str b = Inr (canonical_text b @ [NUL]) \<and>
         sqlite3_uuid_str (SqlBlob b) aBlob = Inr (Some (canonical_text b)) \<and>
         canonical_text b =
           concat (map (\<lambda>i. (if i \<in> {4, 6, 8, 10} then ''-'' else []) @
                          [zDigits ! unat (drop_bit 4 (b ! i)), zDigits ! unat (b ! i AND 0xf)])
                    [0..<16]) \<and>
         zDigits = ''0123456789abcdef'' \<and>
         length (canonical_text b) = 36 \<and>
         canonical (canonical_text b) \<and>
         last (canonical_text b) \<noteq> CHR ''-''"
proof -
  have "last (canonical_text b) = zDigits ! unat (b ! 15 AND 0xf)"
    by (simp add: canonical_text_expand hex2_eq)
  moreover have "zDigits ! unat (b ! 15 AND 0xf) \<in> set zDigits"
    using hex2_in_zDigits [of "b ! 15"] by (simp add: hex2_def)
  ultimately have a: "last (canonical_text b) \<noteq> CHR ''-''"
    using hyphen_not_digit(1) by metis
  have b: "canonical_text b =
           concat (map (\<lambda>i. (if i \<in> {4, 6, 8, 10} then ''-'' else []) @
                          [zDigits ! unat (drop_bit 4 (b ! i)), zDigits ! unat (b ! i AND 0xf)])
                    [0..<16])"
    unfolding canonical_text_def fmt_group_def hex2_def ..
  show ?thesis
    by (intro conjI)
      (fact a b blob_to_str_canonical_text [OF assms] uuid_str_blob [OF assms]
        length_canonical_text canonical_canonical_text zDigits_def)+
qed

theorem formatter_canonical_witness:
  "sqlite3_uuid_blob_to_str
     [0xa0, 0xee, 0xbc, 0x99, 0x9c, 0x0b, 0x4e, 0xf8, 0xbb, 0x6d, 0x6b, 0xb9, 0xbd, 0x38, 0x0a, 0x11] =
   Inr (''a0eebc99-9c0b-4ef8-bb6d-6bb9bd380a11'' @ [NUL]) \<and>
   canonical ''a0eebc99-9c0b-4ef8-bb6d-6bb9bd380a11''"
proof -
  let ?b = "[0xa0, 0xee, 0xbc, 0x99, 0x9c, 0x0b, 0x4e, 0xf8, 0xbb, 0x6d, 0x6b, 0xb9, 0xbd,
      0x38, 0x0a, 0x11] :: byte list"
  have l: "length ?b = 16" by simp
  have c: "canonical_text ?b = ''a0eebc99-9c0b-4ef8-bb6d-6bb9bd380a11''"
    by (simp add: canonical_text_expand hex2_eq zDigits_def)
  from formatter_canonical [OF l]
  have "sqlite3_uuid_blob_to_str ?b = Inr (canonical_text ?b @ [NUL])"
    and "canonical (canonical_text ?b)"
    by blast+
  then show ?thesis by (simp only: c)
qed

text \<open>
  Claim C6. A byte group is two hexadecimal digits, optionally preceded by exactly one
  hyphen (\<open>is_group\<close>). Every sequence of 16 byte groups is parsed with return value 0,
  whichever of the groups carry the hyphen, the first one included; the bytes are the values
  of the digit pairs. Every text in which two hyphens follow each other is rejected with
  return value 1: before a byte group the parser skips one hyphen and no more.
\<close>

theorem one_hyphen_per_group:
  assumes "length aBlob = 16"
  shows "(list_all is_group gs \<and> length gs = 16 \<longrightarrow>
            sqlite3_uuid_str_to_blob (sqlite3_value_text (concat gs)) aBlob =
              Inr (0, map group_byte gs)) \<and>
         (NUL \<notin> set s \<and> s = u @ ''--'' @ v \<longrightarrow> str_to_blob_rc s aBlob = Inr 1)"
proof -
  have "sqlite3_uuid_str_to_blob (sqlite3_value_text (concat gs)) aBlob =
      Inr (0, map group_byte gs)"
    if "list_all is_group gs" "length gs = 16"
  proof -
    have "loose (concat gs) gs"
      using that by (intro looseI [of _ "[]" gs "[]"]) simp_all
    then show ?thesis by (rule text_accepted(1) [OF _ assms])
  qed
  moreover have "str_to_blob_rc s aBlob = Inr 1" if "NUL \<notin> set s" "s = u @ ''--'' @ v"
  proof (rule not_loose_rejected [OF that(1) assms])
    fix gs
    have "double_hyphen s" unfolding that(2) using double_hyphen_append [of u v] by simp
    then show "\<not> loose s gs" using loose_no_double_hyphen by blast
  qed
  ultimately show ?thesis by blast
qed

theorem one_hyphen_per_group_witness:
  "sqlite3_uuid_str_to_blob
     (sqlite3_value_text ''-a0ee-bc99-9c0b-4ef8-bb6d-6bb9-bd38-0a-11'') (replicate 16 0) =
     Inr (0, [0xa0, 0xee, 0xbc, 0x99, 0x9c, 0x0b, 0x4e, 0xf8, 0xbb, 0x6d, 0x6b, 0xb9, 0xbd,
              0x38, 0x0a, 0x11]) \<and>
   str_to_blob_rc ''a0eebc99--9c0b-4ef8-bb6d-6bb9bd380a11'' (replicate 16 0) = Inr 1"
proof -
  let ?gs = "[''-a0'', ''ee'', ''-bc'', ''99'', ''-9c'', ''0b'', ''-4e'', ''f8'', ''-bb'', ''6d'',
    ''-6b'', ''b9'', ''-bd'', ''38'', ''-0a'', ''-11'']"
  have l: "length (replicate 16 (0::byte)) = 16" by simp
  have g: "list_all is_group ?gs \<and> length ?gs = 16"
    by (simp add: xdigit_def isxdigit_def)
  have b: "map group_byte ?gs = [0xa0, 0xee, 0xbc, 0x99, 0x9c, 0x0b, 0x4e, 0xf8, 0xbb, 0x6d,
      0x6b, 0xb9, 0xbd, 0x38, 0x0a, 0x11]"
    by (simp add: hexbyte_def hexval_def)
  have c: "concat ?gs = ''-a0ee-bc99-9c0b-4ef8-bb6d-6bb9-bd38-0a-11''" by simp
  have n: "NUL \<notin> set ''a0eebc99--9c0b-4ef8-bb6d-6bb9bd380a11'' \<and>
      ''a0eebc99--9c0b-4ef8-bb6d-6bb9bd380a11'' = ''a0eebc99'' @ ''--'' @ ''9c0b-4ef8-bb6d-6bb9bd380a11''"
    by (simp add: NUL_def)
  from one_hyphen_per_group [OF l, of ?gs] g have
    "sqlite3_uuid_str_to_blob (sqlite3_value_text (concat ?gs)) (replicate 16 0) =
      Inr (0, map group_byte ?gs)"
    by blast
  moreover from one_hyphen_per_group [OF l, of _ "''a0eebc99--9c0b-4ef8-bb6d-6bb9bd380a11''"
      "''a0eebc99''" "''9c0b-4ef8-bb6d-6bb9bd380a11''"] n
  have "str_to_blob_rc ''a0eebc99--9c0b-4ef8-bb6d-6bb9bd380a11'' (replicate 16 0) = Inr 1"
    by blast
  ultimately show ?thesis by (simp only: b c)
qed

text \<open>
  Claim C7. The braces are optional independently of each other. Let \<open>u\<close> be 16 byte groups
  (two hexadecimal digits each, optionally preceded by one hyphen). Then \<open>u\<close>, \<open>{u\<close>, \<open>u}\<close> and
  \<open>{u}\<close> are all parsed with return value 0 to the same 16 bytes, and the normalizer returns
  these bytes for each of them.
\<close>

theorem braces_independent:
  assumes "list_all is_group gs" "length gs = 16" "length aBlob = 16"
  shows "\<forall>s \<in> {concat gs, ''{'' @ concat gs, concat gs @ ''}'', ''{'' @ concat gs @ ''}''}.
           sqlite3_uuid_str_to_blob (sqlite3_value_text s) aBlob = Inr (0, map group_byte gs) \<and>
           sqlite3_uuid_input_to_blob (SqlText s) aBlob = Inr (Some (map group_byte gs))"
proof -
  have "loose (ob @ concat gs @ cb) gs"
    if "ob = [] \<or> ob = [CHR ''{'']" "cb = [] \<or> cb = [CHR ''}'']" for ob cb
    using that assms by (intro looseI [of _ ob gs cb]) simp_all
  from this [of "[]" "[]"] this [of "[CHR ''{'']" "[]"] this [of "[]" "[CHR ''}'']"]
    this [of "[CHR ''{'']" "[CHR ''}'']"]
  show ?thesis
    using text_accepted(1,3) [OF _ assms(3)] by simp
qed

theorem braces_independent_witness:
  "sqlite3_uuid_input_to_blob (SqlText ''a0eebc999c0b4ef8bb6d6bb9bd380a11'') (replicate 16 0) =
     Inr (Some [0xa0, 0xee, 0xbc, 0x99, 0x9c, 0x0b, 0x4e, 0xf8, 0xbb, 0x6d, 0x6b, 0xb9, 0xbd,
                0x38, 0x0a, 0x11]) \<and>
   sqlite3_uuid_input_to_blob (SqlText ''{a0eebc999c0b4ef8bb6d6bb9bd380a11'') (replicate 16 0) =
     Inr (Some [0xa0, 0xee, 0xbc, 0x99, 0x9c, 0x0b, 0x4e, 0xf8, 0xbb, 0x6d, 0x6b, 0xb9, 0xbd,
                0x38, 0x0a, 0x11]) \<and>
   sqlite3_uuid_input_to_blob (SqlText ''a0eebc999c0b4ef8bb6d6bb9bd380a11}'') (replicate 16 0) =
     Inr (Some [0xa0, 0xee, 0xbc, 0x99, 0x9c, 0x0b, 0x4e, 0xf8, 0xbb, 0x6d, 0x6b, 0xb9, 0xbd,
                0x38, 0x0a, 0x11]) \<and>
   sqlite3_uuid_input_to_blob (SqlText ''{a0eebc999c0b4ef8bb6d6bb9bd380a11}'') (replicate 16 0) =
     Inr (Some [0xa0, 0xee, 0xbc, 0x99, 0x9c, 0x0b, 0x4e, 0xf8, 0xbb, 0x6d, 0x6b, 0xb9, 0xbd,
                0x38, 0x0a, 0x11])"
proof -
  let ?gs = "[''a0'', ''ee'', ''bc'', ''99'', ''9c'', ''0b'', ''4e'', ''f8'', ''bb'', ''6d'', ''6b'',
    ''b9'', ''bd'', ''38'', ''0a'', ''11'']"
  have g: "list_all is_group ?gs" "length ?gs = 16" "length (replicate 16 (0::byte)) = 16"
    by (simp_all add: xdigit_def isxdigit_def)
  have b: "map group_byte ?gs = [0xa0, 0xee, 0xbc, 0x99, 0x9c, 0x0b, 0x4e, 0xf8, 0xbb, 0x6d,
      0x6b, 0xb9, 0xbd, 0x38, 0x0a, 0x11]"
    by (simp add: hexbyte_def hexval_def)
  from braces_independent [OF g] show ?thesis
    unfolding b by simp
qed

text \<open>
  Claim C8. For a blob argument the normalizer \<^verbatim>\<open>sqlite3_uuid_input_to_blob\<close> returns a
  pointer exactly when the blob has 16 bytes, and then it points to those bytes unchanged
  (so blobs of 15 or 17 bytes give the null pointer); for an argument that is neither text
  nor blob (NULL, INTEGER, FLOAT) it returns the null pointer. \<^verbatim>\<open>uuid_blob\<close> hands out the
  same.
\<close>

theorem blob_normalized:
  "sqlite3_uuid_input_to_blob (SqlBlob b) pBuf = Inr (if length b = 16 then Some b else None) \<and>
   sqlite3_uuid_blob (SqlBlob b) pBuf = Inr (if length b = 16 then Some b else None) \<and>
   sqlite3_uuid_input_to_blob SqlNull pBuf = Inr None \<and>
   sqlite3_uuid_input_to_blob (SqlInteger n) pBuf = Inr None \<and>
   sqlite3_uuid_input_to_blob (SqlFloat x) pBuf = Inr None \<and>
   sqlite3_uuid_blob SqlNull pBuf = Inr None \<and>
   sqlite3_uuid_str SqlNull pBuf = Inr None"
  by (simp add: sqlite3_uuid_blob_def sqlite3_uuid_str_def)

theorem blob_normalized_witness:
  "sqlite3_uuid_input_to_blob (SqlBlob (replicate 15 7)) [] = Inr None \<and>
   sqlite3_uuid_input_to_blob (SqlBlob (replicate 16 7)) [] = Inr (Some (replicate 16 7)) \<and>
   sqlite3_uuid_input_to_blob (SqlBlob (replicate 17 7)) [] = Inr None \<and>
   sqlite3_uuid_input_to_blob SqlNull [] = Inr None"
  using blob_normalized [of "replicate 15 7" "[]"] blob_normalized [of "replicate 16 7" "[]"]
    blob_normalized [of "replicate 17 7" "[]"]
  by simp

text \<open>
  Claim C9. Nothing partial is handed out. With the 16-byte scratch buffer of the callers,
  the normalizer returns either the null pointer or a pointer to 16 bytes, \<^verbatim>\<open>uuid_blob\<close>
  returns either no result or 16 bytes, and \<^verbatim>\<open>uuid_str\<close> either no result or a canonical
  36-character text. Whenever the parser returns non-zero on a text, all three return
  nothing; when it returns zero, each of the 16 bytes handed out is the value of a digit pair
  of the text. What the scratch buffer held before the call has no influence on the result.
  The bytes that the parser has stored in the scratch buffer before it fails stay in that
  local array and are not part of any result.
\<close>

theorem no_partial_result:
  assumes "length aBlob = 16" "length aBlob' = 16"
  shows "sqlite3_uuid_input_to_blob v aBlob = sqlite3_uuid_input_to_blob v aBlob' \<and>
         (sqlite3_uuid_input_to_blob v aBlob = Inr None \<or>
           (\<exists>b. sqlite3_uuid_input_to_blob v aBlob = Inr (Some b) \<and> length b = 16)) \<and>
         (sqlite3_uuid_blob v aBlob = Inr None \<or>
           (\<exists>b. sqlite3_uuid_blob v aBlob = Inr (Some b) \<and> length b = 16)) \<and>
         (sqlite3_uuid_str v aBlob = Inr None \<or>
           (\<exists>u. sqlite3_uuid_str v aBlob = Inr (Some u) \<and> length u = 36 \<and> canonical u)) \<and>
         (str_to_blob_rc t aBlob = Inr 0 \<or> str_to_blob_rc t aBlob = Inr 1) \<and>
         (str_to_blob_rc t aBlob \<noteq> Inr 0 \<longrightarrow>
            sqlite3_uuid_input_to_blob (SqlText t) aBlob = Inr None \<and>
            sqlite3_uuid_blob (SqlText t) aBlob = Inr None \<and>
            sqlite3_uuid_str (SqlText t) aBlob = Inr None) \<and>
         (str_to_blob_rc t aBlob = Inr 0 \<longrightarrow>
            (\<exists>gs. loose (takeWhile (\<lambda>c. c \<noteq> NUL) t) gs \<and>
                  sqlite3_uuid_input_to_blob (SqlText t) aBlob = Inr (Some (map group_byte gs))))"
proof -
  note b = input_to_blob_buffer [OF assms, of v]
  note c = input_to_blob_cases [OF assms(1), of v]
  have 1: "sqlite3_uuid_blob v aBlob = Inr None \<or>
           (\<exists>b. sqlite3_uuid_blob v aBlob = Inr (Some b) \<and> length b = 16)"
    using c unfolding sqlite3_uuid_blob_def by auto
  have 2: "sqlite3_uuid_str v aBlob = Inr None \<or>
           (\<exists>u. sqlite3_uuid_str v aBlob = Inr (Some u) \<and> length u = 36 \<and> canonical u)"
    using c unfolding sqlite3_uuid_str_def
    by (auto simp: blob_to_str_canonical_text length_canonical_text canonical_canonical_text)
  note r = rc_cases [OF assms(1), of t]
  have 3: "str_to_blob_rc t aBlob \<noteq> Inr 0 \<longrightarrow>
            sqlite3_uuid_input_to_blob (SqlText t) aBlob = Inr None \<and>
            sqlite3_uuid_blob (SqlText t) aBlob = Inr None \<and>
            sqlite3_uuid_str (SqlText t) aBlob = Inr None"
    using r text_rejected [of t aBlob 1] by auto
  have 4: "str_to_blob_rc t aBlob = Inr 0 \<longrightarrow>
            (\<exists>gs. loose (takeWhile (\<lambda>c. c \<noteq> NUL) t) gs \<and>
                  sqlite3_uuid_input_to_blob (SqlText t) aBlob = Inr (Some (map group_byte gs)))"
    using text_accepted_cstring [OF _ assms(1)] by blast
  show ?thesis by (intro conjI) (fact b c 1 2 r 3 4)+
qed

theorem no_partial_result_witness:
  "sqlite3_uuid_str_to_blob (sqlite3_value_text ''a0eeXYZ'') (replicate 16 0) =
     Inr (1, [0xa0, 0xee] @ replicate 14 0) \<and>
   str_to_blob_rc ''a0eeXYZ'' (replicate 16 0) \<noteq> Inr 0 \<and>
   sqlite3_uuid_input_to_blob (SqlText ''a0eeXYZ'') (replicate 16 0) = Inr None \<and>
   sqlite3_uuid_blob (SqlText ''a0eeXYZ'') (replicate 16 0) = Inr None \<and>
   sqlite3_uuid_str (SqlText ''a0eeXYZ'') (replicate 16 0) = Inr None"
proof -
  have p: "sqlite3_uuid_str_to_blob (sqlite3_value_text ''a0eeXYZ'') (replicate 16 0) =
     Inr (1, [0xa0, 0xee] @ replicate 14 0)"
    by code_simp
  then have n: "str_to_blob_rc ''a0eeXYZ'' (replicate 16 0) \<noteq> Inr 0"
    by (simp add: str_to_blob_rc_def)
  have l: "length (replicate 16 (0::byte)) = 16" by simp
  from no_partial_result [OF l l, of _ "''a0eeXYZ''"] n p show ?thesis by blast
qed

text \<open>
  Claim C10. On a buffer that holds a zero terminator the parser never reads a cell outside
  the buffer, and the \<^verbatim>\<open>assert\<close> of \<^verbatim>\<open>sqlite3UuidHexToInt\<close> never fails. Moreover it does
  exactly the same on the buffer cut off right after its first terminator, where every read
  past the terminator would be a read outside the buffer: no cell behind the first
  terminator is read.
\<close>

theorem no_read_past_terminator:
  assumes "NUL \<in> set zStr"
  shows "sqlite3_uuid_str_to_blob zStr aBlob \<noteq> Inl ReadOutOfBounds \<and>
         sqlite3_uuid_str_to_blob zStr aBlob \<noteq> Inl AssertionFailed \<and>
         sqlite3_uuid_str_to_blob (takeWhile (\<lambda>c. c \<noteq> NUL) zStr @ [NUL]) aBlob =
           sqlite3_uuid_str_to_blob zStr aBlob \<and>
         sqlite3_uuid_str_to_blob (takeWhile (\<lambda>c. c \<noteq> NUL) zStr @ [NUL]) aBlob
           \<noteq> Inl ReadOutOfBounds"
proof -
  from split_at_NUL [OF assms] obtain junk where
    z: "zStr = (takeWhile (\<lambda>c. c \<noteq> NUL) zStr @ [NUL]) @ junk"
    by auto
  have n: "NUL \<in> set (takeWhile (\<lambda>c. c \<noteq> NUL) zStr @ [NUL])" by simp
  have "sqlite3_uuid_str_to_blob ((takeWhile (\<lambda>c. c \<noteq> NUL) zStr @ [NUL]) @ junk) aBlob =
      sqlite3_uuid_str_to_blob (takeWhile (\<lambda>c. c \<noteq> NUL) zStr @ [NUL]) aBlob"
    by (rule parse_junk(1) [OF n])
  with z have "sqlite3_uuid_str_to_blob (takeWhile (\<lambda>c. c \<noteq> NUL) zStr @ [NUL]) aBlob =
      sqlite3_uuid_str_to_blob zStr aBlob"
    by simp
  with parse_junk(2,3) [OF assms, of aBlob] show ?thesis by simp
qed

theorem no_read_past_terminator_witness:
  "sqlite3_uuid_str_to_blob (''a0-'' @ [NUL] @ ''ff'') (replicate 16 0) \<noteq> Inl ReadOutOfBounds \<and>
   sqlite3_uuid_str_to_blob (''a0-'' @ [NUL] @ ''ff'') (replicate 16 0) \<noteq> Inl AssertionFailed \<and>
   sqlite3_uuid_str_to_blob (takeWhile (\<lambda>c. c \<noteq> NUL) (''a0-'' @ [NUL] @ ''ff'') @ [NUL])
       (replicate 16 0) =
     sqlite3_uuid_str_to_blob (''a0-'' @ [NUL] @ ''ff'') (replicate 16 0) \<and>
   sqlite3_uuid_str_to_blob (takeWhile (\<lambda>c. c \<noteq> NUL) (''a0-'' @ [NUL] @ ''ff'') @ [NUL])
       (replicate 16 0) \<noteq> Inl ReadOutOfBounds"
  by (rule no_read_past_terminator) simp

end
